theory Spec2Isabelle
  imports Complex_Main
begin

section \<open>JavaScript numbers\<close>

text \<open>
  The analyzers compute with JavaScript numbers. A number is modelled as a real, or one of
  the three special values the code can produce from reals: \<open>Infinity\<close>, \<open>-Infinity\<close> and
  \<open>NaN\<close>. Arithmetic on finite values is exact (rounding and overflow are abstracted, and
  zero is unsigned), except in the window generator, whose results are rounded; the special
  values follow IEEE 754: \<open>x / 0\<close> is infinite or \<open>NaN\<close>, every comparison with \<open>NaN\<close> is
  false, \<open>Math.max()\<close> of nothing is \<open>-Infinity\<close>.
\<close>

datatype jsnum = Num real | PosInfinity | NegInfinity | NaN

instantiation jsnum :: "{plus, uminus, minus, times, inverse, ord}"
begin

fun uminus_jsnum :: "jsnum \<Rightarrow> jsnum" where
  "uminus_jsnum (Num a) = Num (- a)"
| "uminus_jsnum PosInfinity = NegInfinity"
| "uminus_jsnum NegInfinity = PosInfinity"
| "uminus_jsnum NaN = NaN"

fun plus_jsnum :: "jsnum \<Rightarrow> jsnum \<Rightarrow> jsnum" where
  "plus_jsnum (Num a) (Num b) = Num (a + b)"
| "plus_jsnum NaN y = NaN"
| "plus_jsnum x NaN = NaN"
| "plus_jsnum PosInfinity NegInfinity = NaN"
| "plus_jsnum NegInfinity PosInfinity = NaN"
| "plus_jsnum PosInfinity y = PosInfinity"
| "plus_jsnum NegInfinity y = NegInfinity"
| "plus_jsnum x PosInfinity = PosInfinity"
| "plus_jsnum x NegInfinity = NegInfinity"

definition minus_jsnum :: "jsnum \<Rightarrow> jsnum \<Rightarrow> jsnum" where
  "minus_jsnum x y = x + (- y)"

fun times_jsnum :: "jsnum \<Rightarrow> jsnum \<Rightarrow> jsnum" where
  "times_jsnum (Num a) (Num b) = Num (a * b)"
| "times_jsnum NaN y = NaN"
| "times_jsnum x NaN = NaN"
| "times_jsnum PosInfinity (Num b) =
     (if b = 0 then NaN else if 0 < b then PosInfinity else NegInfinity)"
| "times_jsnum NegInfinity (Num b) =
     (if b = 0 then NaN else if 0 < b then NegInfinity else PosInfinity)"
| "times_jsnum (Num a) PosInfinity =
     (if a = 0 then NaN else if 0 < a then PosInfinity else NegInfinity)"
| "times_jsnum (Num a) NegInfinity =
     (if a = 0 then NaN else if 0 < a then NegInfinity else PosInfinity)"
| "times_jsnum PosInfinity PosInfinity = PosInfinity"
| "times_jsnum NegInfinity NegInfinity = PosInfinity"
| "times_jsnum PosInfinity NegInfinity = NegInfinity"
| "times_jsnum NegInfinity PosInfinity = NegInfinity"

fun divide_jsnum :: "jsnum \<Rightarrow> jsnum \<Rightarrow> jsnum" where
  "divide_jsnum (Num a) (Num b) =
     (if b \<noteq> 0 then Num (a / b)
      else if a = 0 then NaN else if 0 < a then PosInfinity else NegInfinity)"
| "divide_jsnum NaN y = NaN"
| "divide_jsnum x NaN = NaN"
| "divide_jsnum (Num a) PosInfinity = Num 0"
| "divide_jsnum (Num a) NegInfinity = Num 0"
| "divide_jsnum PosInfinity (Num b) = (if 0 \<le> b then PosInfinity else NegInfinity)"
| "divide_jsnum NegInfinity (Num b) = (if 0 \<le> b then NegInfinity else PosInfinity)"
| "divide_jsnum PosInfinity PosInfinity = NaN"
| "divide_jsnum PosInfinity NegInfinity = NaN"
| "divide_jsnum NegInfinity PosInfinity = NaN"
| "divide_jsnum NegInfinity NegInfinity = NaN"

definition inverse_jsnum :: "jsnum \<Rightarrow> jsnum" where
  "inverse_jsnum x = divide (Num 1) x"

fun less_jsnum :: "jsnum \<Rightarrow> jsnum \<Rightarrow> bool" where
  "less_jsnum (Num a) (Num b) = (a < b)"
| "less_jsnum NaN y = False"
| "less_jsnum x NaN = False"
| "less_jsnum x NegInfinity = False"
| "less_jsnum PosInfinity y = False"
| "less_jsnum NegInfinity y = True"
| "less_jsnum x PosInfinity = True"

definition less_eq_jsnum :: "jsnum \<Rightarrow> jsnum \<Rightarrow> bool" where
  "less_eq_jsnum x y = (x < y \<or> (x = y \<and> x \<noteq> NaN))"

instance ..

end

text \<open>\<open>a == b\<close> and \<open>a === b\<close> on numbers: \<open>NaN\<close> is not equal to itself.\<close>

definition js_eq :: "jsnum \<Rightarrow> jsnum \<Rightarrow> bool" where
  "js_eq x y = (x = y \<and> x \<noteq> NaN)"

fun Math_sqrt :: "jsnum \<Rightarrow> jsnum" where
  "Math_sqrt (Num a) = (if 0 \<le> a then Num (sqrt a) else NaN)"
| "Math_sqrt PosInfinity = PosInfinity"
| "Math_sqrt x = NaN"

fun Math_floor :: "jsnum \<Rightarrow> jsnum" where
  "Math_floor (Num a) = Num (of_int \<lfloor>a\<rfloor>)"
| "Math_floor x = x"

text \<open>\<open>Math.round\<close> rounds halves up.\<close>

fun Math_round :: "jsnum \<Rightarrow> jsnum" where
  "Math_round (Num a) = Num (of_int \<lfloor>a + 1 / 2\<rfloor>)"
| "Math_round x = x"

fun Math_max2 :: "jsnum \<Rightarrow> jsnum \<Rightarrow> jsnum" where
  "Math_max2 NaN y = NaN"
| "Math_max2 x NaN = NaN"
| "Math_max2 x y = (if x < y then y else x)"

text \<open>\<open>Math.max(...xs)\<close>: the maximum, \<open>-Infinity\<close> for no argument.\<close>

definition Math_max :: "jsnum list \<Rightarrow> jsnum" where
  "Math_max xs = fold (\<lambda>x m. Math_max2 m x) xs NegInfinity"

section \<open>Arrays\<close>

text \<open>
  Reading an array outside its bounds gives \<open>undefined\<close> (\<open>None\<close>), which is \<open>NaN\<close> in
  arithmetic and comparisons and is replaced by the default in \<open>x || d\<close>, as are \<open>0\<close> and \<open>NaN\<close>.
\<close>

definition js_nth :: "'a list \<Rightarrow> int \<Rightarrow> 'a option" where
  "js_nth xs i = (if 0 \<le> i \<and> i < int (length xs) then Some (xs ! nat i) else None)"

definition to_number :: "jsnum option \<Rightarrow> jsnum" where
  "to_number v = (case v of None \<Rightarrow> NaN | Some x \<Rightarrow> x)"

definition or_default :: "jsnum option \<Rightarrow> jsnum \<Rightarrow> jsnum" where
  "or_default v d = (case v of None \<Rightarrow> d | Some x \<Rightarrow> (if x = Num 0 \<or> x = NaN then d else x))"

text \<open>\<open>xs.slice(a, b)\<close>: negative positions count from the end, all are clipped to the array.\<close>

definition js_slice :: "'a list \<Rightarrow> int \<Rightarrow> int \<Rightarrow> 'a list" where
  "js_slice xs a b =
     (let n = int (length xs);
          s = (if a < 0 then max (n + a) 0 else min a n);
          e = (if b < 0 then max (n + b) 0 else min b n)
      in take (nat (e - s)) (drop (nat s) xs))"

section \<open>Framing\<close>

text \<open>
  Every analyzer walks the channel data with the same loop,
  \<^verbatim>\<open>for (let i = 0; i < channelData.length - windowSize; i += hopSize) { ... push(body(i)) }\<close>.
  \<open>frame_loop body bound hop i acc\<close> is that loop from offset \<open>i\<close> on, \<open>bound\<close> being
  \<open>channelData.length - windowSize\<close>; it does not return (\<open>None\<close>) when the hop is not positive
  and the condition holds.
\<close>

partial_function (option) frame_loop ::
  "(int \<Rightarrow> 'a) \<Rightarrow> int \<Rightarrow> int \<Rightarrow> int \<Rightarrow> 'a list \<Rightarrow> 'a list option" where
  "frame_loop body bound hop i acc =
     (if i < bound then frame_loop body bound hop (i + hop) (acc @ [body i]) else Some acc)"

text \<open>The frames themselves, as \<open>analyzeChroma\<close> cuts them: \<open>channelData.slice(i, i + windowSize)\<close>.\<close>

definition frames :: "'a list \<Rightarrow> int \<Rightarrow> int \<Rightarrow> 'a list list option" where
  "frames channelData windowSize hopSize =
     frame_loop (\<lambda>i. js_slice channelData i (i + windowSize))
       (int (length channelData) - windowSize) hopSize 0 []"

section \<open>The amplitude (basic) analyzer\<close>

text \<open>
  The decoded audio, by its \<open>getChannelData(0)\<close>, \<open>sampleRate\<close> and \<open>duration\<close>. The samples of a
  decoded buffer are finite numbers.
\<close>

record AudioBuffer =
  buf_channelData :: "real list"
  buf_sampleRate :: real
  buf_duration :: real

text \<open>\<open>channelData[k]\<close> as a number: \<open>undefined\<close>, hence \<open>NaN\<close>, outside the buffer.\<close>

definition sample :: "real list \<Rightarrow> int \<Rightarrow> jsnum" where
  "sample cd k = to_number (map_option Num (js_nth cd k))"

text \<open>
  The body of the loop of \<open>analyzeBasic\<close> at offset \<open>i\<close>: the sum of the squares of
  \<open>channelData[i + j]\<close> for \<open>j = 0, \<dots>, windowSize - 1\<close>, then \<open>Math.sqrt(sum / windowSize)\<close>.
\<close>

definition frame_rms :: "real list \<Rightarrow> int \<Rightarrow> int \<Rightarrow> jsnum" where
  "frame_rms cd windowSize i =
     Math_sqrt (fold (\<lambda>j sum. sum + sample cd (i + j) * sample cd (i + j)) [0..windowSize - 1] (Num 0)
                / Num (of_int windowSize))"

definition basic_windowSize :: "AudioBuffer \<Rightarrow> int" where
  "basic_windowSize b = \<lfloor>buf_sampleRate b * (1 / 10)\<rfloor>"

definition basic_hopSize :: "AudioBuffer \<Rightarrow> int" where
  "basic_hopSize b = \<lfloor>real_of_int (basic_windowSize b) / 4\<rfloor>"

text \<open>The local \<open>amplitudes\<close> of \<open>analyzeBasic\<close>: one RMS value per frame.\<close>

definition basic_amplitudes :: "AudioBuffer \<Rightarrow> jsnum list option" where
  "basic_amplitudes b =
     frame_loop (frame_rms (buf_channelData b) (basic_windowSize b))
       (int (length (buf_channelData b)) - basic_windowSize b) (basic_hopSize b) 0 []"

text \<open>The local \<open>normalizedAmplitudes\<close>: divided by the maximum when that is positive.\<close>

definition normalizeAmplitudes :: "jsnum list \<Rightarrow> jsnum list" where
  "normalizeAmplitudes amplitudes =
     (let maxAmp = Math_max amplitudes
      in if Num 0 < maxAmp then map (\<lambda>amp. amp / maxAmp) amplitudes else amplitudes)"

text \<open>
  \<open>smoothArray\<close> copies the array and rewrites the inner positions from left to right, in
  place: position \<open>i\<close> reads the already smoothed \<open>i - 1\<close> and the not yet smoothed \<open>i + 1\<close>.
\<close>

definition smooth_step :: "real \<Rightarrow> nat \<Rightarrow> jsnum list \<Rightarrow> jsnum list" where
  "smooth_step factor i smoothed =
     smoothed[i := smoothed ! i * Num (1 - factor)
                   + (smoothed ! (i - 1) + smoothed ! (i + 1)) * Num factor * Num (1 / 2)]"

definition smoothArray :: "jsnum list \<Rightarrow> real \<Rightarrow> jsnum list" where
  "smoothArray arr factor =
     (if factor \<le> 0 then arr else fold (smooth_step factor) [1..<length arr - 1] arr)"

record basic_result =
  amplitude :: "jsnum list"
  res_sampleRate :: real
  res_duration :: real
  res_windowSize :: int
  res_hopSize :: int
  maxAmplitude :: jsnum

definition analyzeBasic :: "AudioBuffer \<Rightarrow> basic_result option" where
  "analyzeBasic audioBuffer =
     (case basic_amplitudes audioBuffer of
        None \<Rightarrow> None
      | Some amplitudes \<Rightarrow>
          Some \<lparr>amplitude = smoothArray (normalizeAmplitudes amplitudes) (4 / 5),
                res_sampleRate = buf_sampleRate audioBuffer,
                res_duration = buf_duration audioBuffer,
                res_windowSize = basic_windowSize audioBuffer,
                res_hopSize = basic_hopSize audioBuffer,
                maxAmplitude = Math_max amplitudes\<rparr>)"

text \<open>The property the amplitude sequence is checked against: a finite number in \<open>[0, 1]\<close>.\<close>

fun unit_num :: "jsnum \<Rightarrow> bool" where
  "unit_num (Num a) = (0 \<le> a \<and> a \<le> 1)"
| "unit_num x = False"

text \<open>
  A quarter second at 40 Hz with one full-scale sample (window 4, hop 1, six frames), and a
  silent buffer of the same shape.
\<close>

definition pulse_buffer :: AudioBuffer where
  "pulse_buffer =
     \<lparr>buf_channelData = [0, 0, 0, 0, 1, 0, 0, 0, 0, 0], buf_sampleRate = 40, buf_duration = 1 / 4\<rparr>"

definition silent_buffer :: AudioBuffer where
  "silent_buffer =
     \<lparr>buf_channelData = [0, 0, 0, 0, 0, 0, 0, 0, 0, 0], buf_sampleRate = 40, buf_duration = 1 / 4\<rparr>"


section \<open>The chroma analyzer\<close>

text \<open>
  \<open>performFFT\<close> is a direct discrete Fourier transform of a frame of finite samples: entry
  \<open>k\<close> is the pair \<open>{ real, imag }\<close> accumulated over \<open>n = 0, \<dots>, N - 1\<close>.
\<close>

definition performFFT :: "real list \<Rightarrow> (real \<times> real) list" where
  "performFFT buffer =
     (let N = length buffer
      in map (\<lambda>k.
           fold (\<lambda>n (re, im).
                  (let angle = - 2 * pi * real k * real n / real N
                   in (re + buffer ! n * cos angle, im + buffer ! n * sin angle)))
             [0..<N] (0, 0))
         [0..<N])"

text \<open>The remainder \<open>a % b\<close> on integers takes the sign of the dividend.\<close>

definition js_rem :: "int \<Rightarrow> int \<Rightarrow> int" where
  "js_rem a b = sgn a * (\<bar>a\<bar> mod \<bar>b\<bar>)"

text \<open>
  One pass of the loop of \<open>calculateChromaFromFFT\<close>, for bin \<open>i\<close>. The frequency is
  \<open>(i * sampleRate) / fftSize\<close>; only a finite frequency can pass both comparisons, and for
  such a frequency the note number is finite, \<open>Math.round\<close> gives an integer, and the two
  remainders give an index from 0 to 11.
\<close>

definition chroma_step :: "real \<Rightarrow> real \<Rightarrow> (real \<times> real) list \<Rightarrow> nat \<Rightarrow> real list \<Rightarrow> real list" where
  "chroma_step sampleRate fftSize fft i chroma =
     (let freq = Num (real i * sampleRate) / Num fftSize
      in if Num 80 \<le> freq \<and> freq \<le> Num 2000 then
           (case freq of
              Num f \<Rightarrow>
                (let magnitude = sqrt (fst (fft ! i) * fst (fft ! i) + snd (fft ! i) * snd (fft ! i));
                     midiNote = 69 + 12 * log 2 (f / 440);
                     chromaIndex = js_rem \<lfloor>midiNote + 1 / 2\<rfloor> 12;
                     normalizedChromaIndex = nat (js_rem (chromaIndex + 12) 12)
                 in chroma[normalizedChromaIndex := chroma ! normalizedChromaIndex + magnitude])
            | _ \<Rightarrow> chroma)
         else chroma)"

text \<open>The accumulated vector: the loop \<open>for (let i = 1; i < fft.length / 2; i++)\<close>.\<close>

definition chroma_accumulate :: "(real \<times> real) list \<Rightarrow> real \<Rightarrow> real \<Rightarrow> real list" where
  "chroma_accumulate fft sampleRate fftSize =
     fold (chroma_step sampleRate fftSize fft)
       (filter (\<lambda>i. real i < real (length fft) / 2) [1..<length fft]) (replicate 12 0)"

definition calculateChromaFromFFT :: "(real \<times> real) list \<Rightarrow> real \<Rightarrow> real \<Rightarrow> jsnum list" where
  "calculateChromaFromFFT fft sampleRate fftSize =
     (let chroma = chroma_accumulate fft sampleRate fftSize;
          maxChroma = Math_max (map Num chroma)
      in if Num 0 < maxChroma then map (\<lambda>c. Num c / maxChroma) chroma
         else replicate 12 (Num 0))"

record chroma_result =
  chromaFeatures :: "jsnum list list"
  chroma_sampleRate :: real
  chroma_duration :: real
  chroma_fftSize :: int
  chroma_hopSize :: int
  noteNames :: "string list"

definition analyzeChroma :: "AudioBuffer \<Rightarrow> chroma_result option" where
  "analyzeChroma audioBuffer =
     (let fftSize = 2048; hopSize = fftSize div 2
      in case frame_loop
                (\<lambda>i. calculateChromaFromFFT
                        (performFFT (js_slice (buf_channelData audioBuffer) i (i + fftSize)))
                        (buf_sampleRate audioBuffer) (real_of_int fftSize))
                (int (length (buf_channelData audioBuffer)) - fftSize) hopSize 0 [] of
           None \<Rightarrow> None
         | Some chromaValues \<Rightarrow>
             Some \<lparr>chromaFeatures = chromaValues,
                   chroma_sampleRate = buf_sampleRate audioBuffer,
                   chroma_duration = buf_duration audioBuffer,
                   chroma_fftSize = fftSize,
                   chroma_hopSize = hopSize,
                   noteNames = [''C'', ''C#'', ''D'', ''D#'', ''E'', ''F'', ''F#'', ''G'', ''G#'',
                                ''A'', ''A#'', ''B'']\<rparr>)"

section \<open>The beat detector\<close>

text \<open>\<open>normalizedData[k]\<close> as a number.\<close>

definition num_at :: "jsnum list \<Rightarrow> int \<Rightarrow> jsnum" where
  "num_at xs k = to_number (js_nth xs k)"

text \<open>The local \<open>normalizedData\<close> of \<open>findBeats\<close>: the weighted sum, divided by its maximum.\<close>

definition combinedData :: "jsnum list \<Rightarrow> jsnum list \<Rightarrow> jsnum list" where
  "combinedData energyData onsetData =
     map (\<lambda>i. energyData ! i * Num (7 / 10)
              + or_default (js_nth onsetData (int i)) (Num 0) * Num (3 / 10))
       [0..<length energyData]"

definition normalizedData :: "jsnum list \<Rightarrow> jsnum list \<Rightarrow> jsnum list" where
  "normalizedData energyData onsetData =
     (let combined = combinedData energyData onsetData; maxValue = Math_max combined
      in map (\<lambda>value. value / maxValue) combined)"

text \<open>The peak test at frame \<open>i\<close>, with the one-second window \<open>w\<close> on each side.\<close>

definition is_peak :: "jsnum list \<Rightarrow> int \<Rightarrow> int \<Rightarrow> bool" where
  "is_peak nd w i =
     (let localSum = fold (\<lambda>j s. s + num_at nd j) [i - w..i + w - 1] (Num 0);
          localAverage = localSum / Num (2 * real_of_int w);
          adaptiveThreshold = Math_max2 (Num (3 / 10)) (localAverage * Num (13 / 10))
      in adaptiveThreshold < num_at nd i \<and> num_at nd (i - 1) < num_at nd i
         \<and> num_at nd (i + 1) < num_at nd i)"

text \<open>One pass of the main loop: a peak is kept when it is far enough from the last beat.\<close>

definition beat_step :: "jsnum list \<Rightarrow> int \<Rightarrow> jsnum \<Rightarrow> int \<Rightarrow> int list \<Rightarrow> int list" where
  "beat_step nd w minBeatInterval i beats =
     (if is_peak nd w i
         \<and> (beats = [] \<or> minBeatInterval < Num (real_of_int (i - last beats)))
      then beats @ [i] else beats)"

text \<open>
  \<open>findBeats\<close>. The window \<open>Math.floor(sampleRate / hopSize)\<close> is the start of the loop
  \<open>for (let i = windowSize; i < normalizedData.length - windowSize; i++)\<close>: with an infinite or
  undefined window the condition fails at once, except for \<open>-Infinity\<close>, where it holds forever.
\<close>

definition findBeats :: "jsnum list \<Rightarrow> jsnum list \<Rightarrow> real \<Rightarrow> real \<Rightarrow> jsnum list option" where
  "findBeats energyData onsetData sampleRate hopSize =
     (let minBeatInterval = Math_floor (Num (3 / 10) * Num sampleRate / Num hopSize);
          nd = normalizedData energyData onsetData
      in case Math_floor (Num sampleRate / Num hopSize) of
           Num windowSize \<Rightarrow>
             (let w = \<lfloor>windowSize\<rfloor>;
                  beats = fold (beat_step nd w minBeatInterval) [w..int (length nd) - w - 1] []
              in Some (map (\<lambda>frameIndex. Num (real_of_int frameIndex * hopSize) / Num sampleRate) beats))
         | NegInfinity \<Rightarrow> None
         | _ \<Rightarrow> Some [])"

text \<open>
  \<open>calculateTempo\<close>; the beat times are finite numbers. The sort is numeric
  (\<open>(a, b) => a - b\<close>), the median is the entry at \<open>Math.floor(intervals.length / 2)\<close>.
\<close>

definition beat_intervals :: "real list \<Rightarrow> real list" where
  "beat_intervals beats = map (\<lambda>i. beats ! i - beats ! (i - 1)) [1..<length beats]"

definition medianInterval :: "real list \<Rightarrow> real" where
  "medianInterval beats =
     (let intervals = sort (beat_intervals beats) in intervals ! (length intervals div 2))"

definition calculateTempo :: "real list \<Rightarrow> real \<Rightarrow> jsnum" where
  "calculateTempo beats duration =
     (if length beats < 2 then Num 0
      else let bpm = Num 60 / Num (medianInterval beats)
           in if bpm < Num 60 \<or> Num 200 < bpm then
                (if bpm < Num 60 \<and> bpm * Num 2 \<le> Num 200 then bpm * Num 2
                 else if Num 200 < bpm \<and> Num 60 \<le> bpm / Num 2 then bpm / Num 2
                 else Math_round bpm)
              else Math_round bpm)"


section \<open>The spectral-statistics analyzer\<close>

fun Math_exp :: "jsnum \<Rightarrow> jsnum" where
  "Math_exp (Num a) = Num (exp a)"
| "Math_exp PosInfinity = PosInfinity"
| "Math_exp NegInfinity = Num 0"
| "Math_exp NaN = NaN"

fun Math_log :: "jsnum \<Rightarrow> jsnum" where
  "Math_log (Num a) = (if 0 < a then Num (ln a) else if a = 0 then NegInfinity else NaN)"
| "Math_log PosInfinity = PosInfinity"
| "Math_log x = NaN"

fun isFinite :: "jsnum \<Rightarrow> bool" where
  "isFinite (Num a) = True"
| "isFinite x = False"

text \<open>\<open>spectrum.map((_, i) => (i * sampleRate) / fftSize)\<close>\<close>

definition frequencies_of :: "real list \<Rightarrow> real \<Rightarrow> real \<Rightarrow> jsnum list" where
  "frequencies_of spectrum sampleRate fftSize =
     map (\<lambda>i. Num (real i * sampleRate) / Num fftSize) [0..<length spectrum]"

text \<open>\<open>spectrum.reduce((sum, mag) => sum + mag * mag, 0)\<close>, on finite magnitudes.\<close>

definition totalEnergy_of :: "real list \<Rightarrow> jsnum" where
  "totalEnergy_of spectrum = Num (fold (\<lambda>mag sum. sum + mag * mag) spectrum 0)"

text \<open>
  The rolloff loop, over the bins with their frequencies: it stops at the first bin where the
  running energy reaches the threshold.
\<close>

fun rolloff_loop :: "(real \<times> jsnum) list \<Rightarrow> jsnum \<Rightarrow> jsnum \<Rightarrow> jsnum" where
  "rolloff_loop [] energySum rolloffThreshold = Num 0"
| "rolloff_loop ((mag, freq) # bins) energySum rolloffThreshold =
     (let energySum' = energySum + Num (mag * mag)
      in if rolloffThreshold \<le> energySum' then freq
         else rolloff_loop bins energySum' rolloffThreshold)"

definition calculateSpectralSlope :: "real list \<Rightarrow> jsnum list \<Rightarrow> jsnum" where
  "calculateSpectralSlope spectrum frequencies =
     (let logMagnitudes = map (\<lambda>mag. Math_log (Math_max2 (Num mag) (Num (1 / 10 ^ 10)))) spectrum;
          logFrequencies = map (\<lambda>freq. Math_log (Math_max2 freq (Num 1))) frequencies;
          n = Num (real (length logMagnitudes));
          sumX = fold (\<lambda>b a. a + b) logFrequencies (Num 0);
          sumY = fold (\<lambda>b a. a + b) logMagnitudes (Num 0);
          sumXY = fold (\<lambda>i sum. sum + logFrequencies ! i * num_at logMagnitudes (int i))
                    [0..<length logFrequencies] (Num 0);
          sumXX = fold (\<lambda>x sum. sum + x * x) logFrequencies (Num 0);
          slopeValue = (n * sumXY - sumX * sumY) / (n * sumXX - sumX * sumX)
      in if isFinite slopeValue then slopeValue else Num 0)"

text \<open>\<open>calculateSpectralMoments\<close> returns \<open>{ kurtosis, skewness }\<close>, here as a pair.\<close>

definition calculateSpectralMoments :: "real list \<Rightarrow> jsnum list \<Rightarrow> jsnum \<Rightarrow> jsnum \<Rightarrow> jsnum \<times> jsnum" where
  "calculateSpectralMoments spectrum frequencies centroid totalEnergy =
     (let moments =
            fold (\<lambda>i (moment2, moment3, moment4).
                   (let deviation = num_at frequencies (int i) - centroid;
                        weight = Num (spectrum ! i * spectrum ! i) / totalEnergy
                    in (moment2 + deviation * deviation * weight,
                        moment3 + deviation * deviation * deviation * weight,
                        moment4 + deviation * deviation * deviation * deviation * weight)))
              [0..<length spectrum] (Num 0, Num 0, Num 0);
          variance = fst moments;
          stdDev = Math_sqrt variance;
          skewness = (if Num 0 < stdDev then fst (snd moments) / (stdDev * stdDev * stdDev) else Num 0);
          kurtosis = (if Num 0 < variance then snd (snd moments) / (variance * variance) - Num 3
                      else Num 0)
      in (kurtosis, skewness))"

record spectral_features =
  centroid :: jsnum
  bandwidth :: jsnum
  rolloff :: jsnum
  flux :: jsnum
  flatness :: jsnum
  crest :: jsnum
  energy :: jsnum
  slope :: jsnum
  kurtosis :: jsnum
  skewness :: jsnum

text \<open>
  \<open>calculateSpectralFeatures\<close> on a spectrum of finite magnitudes; \<open>previousSpectrum\<close> is
  \<open>null\<close> (\<open>None\<close>) for the first frame.
\<close>

definition calculateSpectralFeatures ::
  "real list \<Rightarrow> real \<Rightarrow> real \<Rightarrow> real list option \<Rightarrow> spectral_features" where
  "calculateSpectralFeatures spectrum sampleRate fftSize previousSpectrum =
     (let frequencies = frequencies_of spectrum sampleRate fftSize;
          totalEnergy = totalEnergy_of spectrum
      in if js_eq totalEnergy (Num 0) then
           \<lparr>centroid = Num 0, bandwidth = Num 0, rolloff = Num 0, flux = Num 0,
            flatness = Num 0, crest = Num 0, energy = Num 0, slope = Num 0,
            kurtosis = Num 0, skewness = Num 0\<rparr>
         else
           (let weightedSum =
                  fold (\<lambda>i s. s + frequencies ! i * Num (spectrum ! i) * Num (spectrum ! i))
                    [0..<length spectrum] (Num 0);
                centroidValue = weightedSum / totalEnergy;
                bandwidthSum =
                  fold (\<lambda>i s. (let deviation = frequencies ! i - centroidValue
                                in s + deviation * deviation * Num (spectrum ! i) * Num (spectrum ! i)))
                    [0..<length spectrum] (Num 0);
                rolloffThreshold = totalEnergy * Num (85 / 100);
                fluxValue = (case previousSpectrum of
                          None \<Rightarrow> Num 0
                        | Some previous \<Rightarrow>
                            Math_sqrt (Num (fold (\<lambda>i fluxSum.
                                              (let diff = spectrum ! i - previous ! i
                                               in fluxSum + diff * diff))
                                         [0..<min (length spectrum) (length previous)] 0)));
                geometricMean =
                  Math_exp (fold (\<lambda>mag sum. sum + Math_log (Math_max2 (Num mag) (Num (1 / 10 ^ 10))))
                              spectrum (Num 0)
                            / Num (real (length spectrum)));
                arithmeticMean =
                  Num (fold (\<lambda>mag sum. sum + mag) spectrum 0) / Num (real (length spectrum));
                maxMagnitude = Math_max (map Num spectrum);
                rmsMagnitude =
                  Math_sqrt (Num (fold (\<lambda>mag sum. sum + mag * mag) spectrum 0)
                             / Num (real (length spectrum)));
                moments = calculateSpectralMoments spectrum frequencies centroidValue totalEnergy
            in \<lparr>centroid = centroidValue,
                bandwidth = Math_sqrt (bandwidthSum / totalEnergy),
                rolloff = rolloff_loop (zip spectrum frequencies) (Num 0) rolloffThreshold,
                flux = fluxValue,
                flatness = (if Num 0 < arithmeticMean then geometricMean / arithmeticMean else Num 0),
                crest = (if Num 0 < rmsMagnitude then maxMagnitude / rmsMagnitude else Num 0),
                energy = totalEnergy,
                slope = calculateSpectralSlope spectrum frequencies,
                kurtosis = fst moments,
                skewness = snd moments\<rparr>))"

section \<open>Window functions and the FFT\<close>

fun Math_log2 :: "jsnum \<Rightarrow> jsnum" where
  "Math_log2 (Num a) = (if 0 < a then Num (log 2 a) else if a = 0 then NegInfinity else NaN)"
| "Math_log2 PosInfinity = PosInfinity"
| "Math_log2 x = NaN"

fun Number_isInteger :: "jsnum \<Rightarrow> bool" where
  "Number_isInteger (Num a) = (a = of_int \<lfloor>a\<rfloor>)"
| "Number_isInteger x = False"

text \<open>\<open>type.toLowerCase()\<close>, on ASCII.\<close>

definition toLowerCase :: "string \<Rightarrow> string" where
  "toLowerCase s =
     map (\<lambda>c. (let n = of_char c :: nat in if 65 \<le> n \<and> n \<le> 90 then char_of (n + 32) else c)) s"

text \<open>
  What \<open>createWindowFunction\<close> and the FFT constructor can throw: the \<open>Error\<close> of the size
  check with its message, or the \<open>RangeError\<close> of \<open>new Array(n)\<close> for an \<open>n\<close> that is not an
  integer from 0 to \<open>2^32 - 1\<close>.
\<close>

datatype js_error = Error string | RangeError

fun valid_array_length :: "jsnum \<Rightarrow> bool" where
  "valid_array_length (Num a) = (a = of_int \<lfloor>a\<rfloor> \<and> 0 \<le> a \<and> a \<le> 2 ^ 32 - 1)"
| "valid_array_length x = False"

subsection \<open>Rounded arithmetic\<close>

text \<open>
  The window generator is where computed coefficients are compared with \<open>==\<close>, so in this
  section every arithmetic result is rounded to a double. What the rounding does
  (\<open>fl\<close>) and what \<open>Math.cos\<close> returns on a finite number (\<open>fcos\<close>, which ECMAScript
  leaves to the implementation) are the two components of an engine. Integers up to the
  length of an array, and the literals \<open>0.5\<close>, \<open>1\<close> and \<open>2\<close>, are doubles as they stand; the
  other decimal literals and \<open>Math.PI\<close> are rounded.
\<close>

record engine =
  fl :: "real \<Rightarrow> real"
  fcos :: "real \<Rightarrow> real"

text \<open>
  A result is rounded as if the exponent had no upper bound (\<open>fl\<close>), and overflows to an
  infinity when the rounded magnitude reaches \<open>2^1024\<close>.
\<close>

fun rounded :: "engine \<Rightarrow> jsnum \<Rightarrow> jsnum" where
  "rounded E (Num a) =
     (if 2 ^ 1024 \<le> \<bar>fl E a\<bar> then (if 0 < fl E a then PosInfinity else NegInfinity)
      else Num (fl E a))"
| "rounded E x = x"

definition js_add :: "engine \<Rightarrow> jsnum \<Rightarrow> jsnum \<Rightarrow> jsnum" where
  "js_add E x y = rounded E (x + y)"

definition js_sub :: "engine \<Rightarrow> jsnum \<Rightarrow> jsnum \<Rightarrow> jsnum" where
  "js_sub E x y = rounded E (x - y)"

definition js_mul :: "engine \<Rightarrow> jsnum \<Rightarrow> jsnum \<Rightarrow> jsnum" where
  "js_mul E x y = rounded E (x * y)"

definition js_div :: "engine \<Rightarrow> jsnum \<Rightarrow> jsnum \<Rightarrow> jsnum" where
  "js_div E x y = rounded E (x / y)"

definition literal :: "engine \<Rightarrow> real \<Rightarrow> jsnum" where
  "literal E r = rounded E (Num r)"

definition Math_PI :: "engine \<Rightarrow> jsnum" where
  "Math_PI E = rounded E (Num pi)"

fun Math_cos :: "engine \<Rightarrow> jsnum \<Rightarrow> jsnum" where
  "Math_cos E (Num a) = Num (fcos E a)"
| "Math_cos E x = NaN"

text \<open>
  The accuracy of double precision: a rounded result is within the relative error \<open>2^-53\<close>
  of the exact one, or within \<open>2^-1075\<close> of it where it underflows, and \<open>Math.cos\<close> is within
  \<open>2^-52\<close> of the cosine (one unit in the last place of a number in \<open>[-1, 1]\<close>).
\<close>

definition double_precision :: "engine \<Rightarrow> bool" where
  "double_precision E \<longleftrightarrow>
     (\<forall>x. \<bar>fl E x - x\<bar> \<le> \<bar>x\<bar> / 2 ^ 53 + 1 / 2 ^ 1075)
     \<and> (\<forall>x. \<bar>fcos E x - cos x\<bar> \<le> 1 / 2 ^ 52)"

text \<open>
  Round to nearest, ties to even: a number of binary exponent \<open>e\<close> is rounded to a multiple
  of \<open>2^(e - 52)\<close>, and below the normal range, where \<open>e < -1022\<close>, to a multiple of \<open>2^-1074\<close>.
  With the cosine rounded in the same way this is an engine of that accuracy.
\<close>

definition round_half_even :: "real \<Rightarrow> int" where
  "round_half_even y =
     (let f = \<lfloor>y\<rfloor>
      in if y - of_int f < 1 / 2 then f
         else if 1 / 2 < y - of_int f then f + 1
         else if even f then f else f + 1)"

definition binary64 :: "real \<Rightarrow> real" where
  "binary64 x =
     (if x = 0 then 0
      else (let e = max \<lfloor>log 2 \<bar>x\<bar>\<rfloor> (- 1022);
                ulp = 2 powr (of_int e - 52)
            in of_int (round_half_even (x / ulp)) * ulp))"

definition nearest_engine :: engine where
  "nearest_engine = \<lparr>fl = binary64, fcos = (\<lambda>x. binary64 (cos x))\<rparr>"

text \<open>
  An engine of the same accuracy whose cosine errs by half a unit in the last place on one
  side of \<open>\<pi>\<close> only.
\<close>

definition skewed_engine :: engine where
  "skewed_engine = \<lparr>fl = (\<lambda>x. x), fcos = (\<lambda>x. if x < pi then cos x + 1 / 2 ^ 53 else cos x)\<rparr>"

text \<open>Two numbers that are both finite and differ by at most \<open>tolerance\<close>.\<close>

fun close_to :: "real \<Rightarrow> jsnum \<Rightarrow> jsnum \<Rightarrow> bool" where
  "close_to tolerance (Num a) (Num b) = (\<bar>a - b\<bar> \<le> tolerance)"
| "close_to tolerance x y = False"

subsection \<open>Window coefficients\<close>

text \<open>The Bessel series of the Kaiser window: 49 terms after the first.\<close>

definition modifiedBesselI0 :: "engine \<Rightarrow> jsnum \<Rightarrow> jsnum" where
  "modifiedBesselI0 E x =
     fst (fold (\<lambda>i (result, term).
                 (let term' = js_mul E term (js_div E (js_div E x (Num 2)) (Num (real i)))
                  in (js_add E result (js_mul E term' term'), term')))
            [1..<50] (Num 1, Num 1))"

text \<open>
  \<open>createWindowFunction\<close> allocates \<open>new Array(size)\<close> and fills it position by position;
  the loop bodies divide by \<open>size - 1\<close>. \<open>turn\<close> is \<open>2 * Math.PI * i / (size - 1)\<close>, and
  \<open>Math.pow(x, 2)\<close> is the rounded square.
\<close>

definition window_coefficient :: "engine \<Rightarrow> string \<Rightarrow> nat \<Rightarrow> nat \<Rightarrow> jsnum" where
  "window_coefficient E kind size' i =
     (let turn = js_div E (js_mul E (js_mul E (Num 2) (Math_PI E)) (Num (real i)))
                   (js_sub E (Num (real size')) (Num 1))
      in if kind = ''hann'' \<or> kind = ''hanning'' then
           js_mul E (Num (1 / 2)) (js_sub E (Num 1) (Math_cos E turn))
         else if kind = ''hamming'' then
           js_sub E (literal E (54 / 100)) (js_mul E (literal E (46 / 100)) (Math_cos E turn))
         else if kind = ''blackman'' then
           js_add E
             (js_sub E (literal E (42 / 100)) (js_mul E (Num (1 / 2)) (Math_cos E turn)))
             (js_mul E (literal E (8 / 100)) (Math_cos E (js_mul E (Num 2) turn)))
         else if kind = ''kaiser'' then
           (let beta = literal E (86 / 10);
                alpha = js_div E (js_sub E (Num (real size')) (Num 1)) (Num 2);
                ratio = js_div E (js_sub E (Num (real i)) alpha) alpha;
                arg = js_mul E beta
                        (rounded E (Math_sqrt (js_sub E (Num 1) (js_mul E ratio ratio))))
            in js_div E (modifiedBesselI0 E arg) (modifiedBesselI0 E beta))
         else if kind = ''tukey'' then
           (let alphaN = js_div E (js_mul E (Num (1 / 2)) (js_sub E (Num (real size')) (Num 1)))
                           (Num 2)
            in if Num (real i) \<le> alphaN then
                 js_mul E (Num (1 / 2))
                   (js_add E (Num 1)
                      (Math_cos E
                         (js_mul E (Math_PI E)
                            (js_sub E (js_div E (Num (real i)) alphaN) (Num 1)))))
               else if js_sub E (Num (real size')) alphaN \<le> Num (real i) then
                 js_mul E (Num (1 / 2))
                   (js_add E (Num 1)
                      (Math_cos E
                         (js_mul E (Math_PI E)
                            (js_div E
                               (js_add E (js_sub E (Num (real i)) (Num (real size'))) alphaN)
                               alphaN))))
               else Num 1)
         else Num 1)"

definition createWindowFunction :: "engine \<Rightarrow> nat \<Rightarrow> string \<Rightarrow> js_error + jsnum list" where
  "createWindowFunction E size' type =
     (if \<not> valid_array_length (Num (real size')) then Inl RangeError
      else Inr (map (window_coefficient E (toLowerCase type) size') [0..<size']))"

subsection \<open>The FFT constructor\<close>

record FFT =
  fft_size :: nat
  log2Size :: jsnum
  bitReversalIndices :: "nat list"
  twiddleFactors :: "(real \<times> real) list"

text \<open>
  \<open>reverseBits\<close> shifts the low bit of \<open>num\<close> into \<open>result\<close>, \<open>bits\<close> times; on the indices
  of a table that fits an array the 32-bit operations do not wrap.
\<close>

fun reverseBits_loop :: "nat \<Rightarrow> nat \<Rightarrow> nat \<Rightarrow> nat" where
  "reverseBits_loop 0 num result = result"
| "reverseBits_loop (Suc bits) num result = reverseBits_loop bits (num div 2) (2 * result + num mod 2)"

definition reverseBits :: "nat \<Rightarrow> nat \<Rightarrow> nat" where
  "reverseBits num bits = reverseBits_loop bits num 0"

definition FFT_constructor :: "nat \<Rightarrow> js_error + FFT" where
  "FFT_constructor size' =
     (let log2Size = Math_log2 (Num (real size'))
      in if \<not> Number_isInteger log2Size then Inl (Error ''FFT size must be a power of 2'')
         else if \<not> valid_array_length (Num (real size')) then Inl RangeError
         else
           (let bits = (case log2Size of Num b \<Rightarrow> nat \<lfloor>b\<rfloor> | _ \<Rightarrow> 0);
                bitReversalIndices = map (\<lambda>i. reverseBits i bits) [0..<size']
            in if \<not> valid_array_length (Num (real size') / Num 2) then Inl RangeError
               else Inr \<lparr>fft_size = size', log2Size = log2Size,
                         bitReversalIndices = bitReversalIndices,
                         twiddleFactors =
                           map (\<lambda>i. (let angle = - 2 * pi * real i / real size'
                                      in (cos angle, sin angle)))
                             (filter (\<lambda>i. real i < real size' / 2) [0..<size'])\<rparr>))"


section \<open>Orchestration: the analysis hook\<close>

text \<open>An analysis record, tagged by its \<open>type\<close>.\<close>

datatype analysis_result = Basic basic_result | Chroma chroma_result

text \<open>
  \<open>loadAnalysisModule\<close>: the analyzer of a tab; every tab other than \<open>chroma\<close> gets the
  basic analyzer. An analyzer that does not return is \<open>None\<close>.
\<close>

definition loadAnalysisModule :: "string \<Rightarrow> AudioBuffer \<Rightarrow> analysis_result option" where
  "loadAnalysisModule tabId =
     (if tabId = ''basic'' then (\<lambda>b. map_option Basic (analyzeBasic b))
      else if tabId = ''chroma'' then (\<lambda>b. map_option Chroma (analyzeChroma b))
      else (\<lambda>b. map_option Basic (analyzeBasic b)))"

text \<open>
  The state of the hook: \<open>analysisData\<close>, one entry per tab (\<open>null\<close> is \<open>None\<close>), and
  \<open>audioBuffer\<close>. \<open>analyzerRuns\<close> is not program state: it counts the analyzer calls made,
  to state how often an analysis is computed.
\<close>

record hook_state =
  analysisData :: "string \<rightharpoonup> analysis_result"
  audioBuffer :: "AudioBuffer option"
  analyzerRuns :: nat

definition initial_state :: hook_state where
  "initial_state = \<lparr>analysisData = Map.empty, audioBuffer = None, analyzerRuns = 0\<rparr>"

text \<open>
  \<open>analyzeForTab\<close>, with the state updates applied in order; the result is the returned
  value (\<open>null\<close> is \<open>None\<close>) and the new state, or \<open>None\<close> when the analyzer does not return.
  The modelled analyzers do not throw, so the \<open>catch\<close> branch has no counterpart here.
\<close>

definition analyzeForTab ::
  "string \<Rightarrow> AudioBuffer option \<Rightarrow> hook_state \<Rightarrow> (analysis_result option \<times> hook_state) option" where
  "analyzeForTab tabId buffer st =
     (case buffer of
        None \<Rightarrow> Some (None, st)
      | Some b \<Rightarrow>
          (let st1 = st\<lparr>audioBuffer := Some b\<rparr>
           in case analysisData st1 tabId of
                Some cached \<Rightarrow> Some (Some cached, st1)
              | None \<Rightarrow>
                  (case loadAnalysisModule tabId b of
                     None \<Rightarrow> None
                   | Some result \<Rightarrow>
                       Some (Some result,
                             st1\<lparr>analysisData := (analysisData st1)(tabId \<mapsto> result),
                                 analyzerRuns := Suc (analyzerRuns st1)\<rparr>))))"

definition clearAnalysisData :: "hook_state \<Rightarrow> hook_state" where
  "clearAnalysisData st = st\<lparr>analysisData := Map.empty, audioBuffer := None\<rparr>"

text \<open>
  \<open>handleFileUpload\<close> of the component, for the buffer that \<open>loadAudioBuffer\<close> decoded
  (\<open>null\<close> when decoding failed): it stores the buffer and analyzes for the active tab.
\<close>

definition handleFileUpload :: "string \<Rightarrow> AudioBuffer option \<Rightarrow> hook_state \<Rightarrow> hook_state option" where
  "handleFileUpload activeTab buffer st =
     (case buffer of
        None \<Rightarrow> Some st
      | Some b \<Rightarrow> map_option snd (analyzeForTab activeTab (Some b) (st\<lparr>audioBuffer := Some b\<rparr>)))"

text \<open>Two decoded files, both shorter than one analysis window, at different sample rates.\<close>

definition first_buffer :: AudioBuffer where
  "first_buffer = \<lparr>buf_channelData = [1 / 2], buf_sampleRate = 44100, buf_duration = 1 / 44100\<rparr>"

definition second_buffer :: AudioBuffer where
  "second_buffer =
     \<lparr>buf_channelData = [1 / 4, 1 / 4], buf_sampleRate = 48000, buf_duration = 2 / 48000\<rparr>"


section \<open>Facts about numbers\<close>

lemma Num_minus [simp]: "Num a - Num b = Num (a - b)"
  by (simp add: minus_jsnum_def)

lemma Num_le [simp]: "(Num a \<le> Num b) = (a \<le> b)"
  by (auto simp: less_eq_jsnum_def)

lemma minus_NaN [simp]: "x - NaN = NaN" "NaN - x = NaN"
  by (cases x; simp add: minus_jsnum_def)+

lemma Math_max_Nil [simp]: "Math_max [] = NegInfinity"
  by (simp add: Math_max_def)

lemma Math_max2_Num [simp]: "Math_max2 (Num a) (Num b) = Num (max a b)"
  by (simp add: max_def)

lemma Max_insert_max:
  fixes a x :: real
  assumes "finite S"
  shows "Max (insert (max a x) S) = Max (insert a (insert x S))"
proof (cases "S = {}")
  case True
  then show ?thesis by simp
next
  case False
  then show ?thesis using assms by (simp add: max.assoc)
qed

lemma fold_Math_max2_Num:
  "fold (\<lambda>x m. Math_max2 m x) (map Num xs) (Num a) = Num (Max (insert a (set xs)))"
proof (induction xs arbitrary: a)
  case Nil
  then show ?case by simp
next
  case (Cons x xs)
  have "fold (\<lambda>x m. Math_max2 m x) (map Num (x # xs)) (Num a) =
      fold (\<lambda>x m. Math_max2 m x) (map Num xs) (Num (max a x))"
    by simp
  also have "\<dots> = Num (Max (insert (max a x) (set xs)))" by (rule Cons.IH)
  also have "Max (insert (max a x) (set xs)) = Max (insert a (set (x # xs)))"
    using Max_insert_max [of "set xs" a x] by simp
  finally show ?case .
qed

lemma Math_max_Num_Cons: "Math_max (map Num (x # xs)) = Num (Max (set (x # xs)))"
  by (simp add: Math_max_def fold_Math_max2_Num)

lemma Math_max_Num:
  assumes "xs \<noteq> []"
  shows "Math_max (map Num xs) = Num (Max (set xs))"
proof (cases xs)
  case Nil
  with assms show ?thesis by simp
next
  case (Cons x xs')
  show ?thesis unfolding Cons by (rule Math_max_Num_Cons)
qed

section \<open>Framing: how many frames, and where\<close>

text \<open>
  With a positive hop the loop returns: it runs \<open>\<lceil>(bound - i) / hop\<rceil>\<close> times, at the offsets
  \<open>i, i + hop, i + 2 hop, \<dots>\<close> below \<open>bound\<close>.
\<close>

lemma frame_loop_closed:
  assumes "0 < hop"
  shows "frame_loop body bound hop i acc =
    Some (acc @ map (\<lambda>k. body (i + int k * hop)) [0..<nat ((bound - i + hop - 1) div hop)])"
proof (induction "nat (bound - i)" arbitrary: i acc rule: less_induct)
  case less
  show ?case
  proof (cases "i < bound")
    case False
    have "(bound - i + hop - 1) div hop \<le> 0"
    proof (cases "bound - i + hop - 1 < 0")
      case True
      then show ?thesis using assms div_neg_pos_less0 [of "bound - i + hop - 1" hop] by simp
    next
      case neg: False
      with False have "(bound - i + hop - 1) div hop = 0"
        by (intro div_pos_pos_trivial) simp_all
      then show ?thesis by simp
    qed
    with False show ?thesis
      by (subst frame_loop.simps) simp
  next
    case True
    let ?n = "nat ((bound - (i + hop) + hop - 1) div hop)"
    have dec: "nat (bound - (i + hop)) < nat (bound - i)"
      using True assms by simp
    have cnt: "nat ((bound - i + hop - 1) div hop) = Suc ?n"
    proof -
      have "(bound - i + hop - 1) div hop = (bound - (i + hop) + hop - 1) div hop + 1"
      proof -
        have "bound - i + hop - 1 = (bound - (i + hop) + hop - 1) + hop" by simp
        then show ?thesis using assms by (simp only: div_add_self2)
      qed
      moreover have "0 \<le> (bound - (i + hop) + hop - 1) div hop"
        using True assms by (simp add: pos_imp_zdiv_nonneg_iff)
      ultimately show ?thesis by simp
    qed
    have "frame_loop body bound hop i acc = frame_loop body bound hop (i + hop) (acc @ [body i])"
      using True by (subst frame_loop.simps) simp
    also have "\<dots> = Some ((acc @ [body i]) @ map (\<lambda>k. body (i + hop + int k * hop)) [0..<?n])"
      using less.hyps [OF dec] .
    also have "(acc @ [body i]) @ map (\<lambda>k. body (i + hop + int k * hop)) [0..<?n] =
      acc @ map (\<lambda>k. body (i + int k * hop)) [0..<Suc ?n]"
      by (simp add: map_upt_Suc algebra_simps del: upt_Suc)
    finally show ?thesis by (simp only: cnt)
  qed
qed

text \<open>
  Conversely a loop that returns either has a positive hop or never runs its body: with a
  hop that is not positive and the condition true, it does not return.
\<close>

lemma frame_loop_Some_terminates:
  assumes "frame_loop body bound hop i acc = Some r"
  shows "0 < hop \<or> bound \<le> i"
proof (rule frame_loop.raw_induct
    [where P = "\<lambda>body bound hop i acc r. 0 < hop \<or> bound \<le> i", OF _ assms])
  fix f :: "(int \<Rightarrow> 'a) \<Rightarrow> int \<Rightarrow> int \<Rightarrow> int \<Rightarrow> 'a list \<Rightarrow> 'a list option"
    and body bound hop i acc r
  assume IH: "\<And>body bound hop i acc r. f body bound hop i acc = Some r \<Longrightarrow> 0 < hop \<or> bound \<le> i"
    and step: "(if i < bound then f body bound hop (i + hop) (acc @ [body i]) else Some acc) = Some r"
  show "0 < hop \<or> bound \<le> i"
  proof (cases "i < bound")
    case True
    with step have "f body bound hop (i + hop) (acc @ [body i]) = Some r" by simp
    from IH [OF this] True show ?thesis by linarith
  next
    case False
    then show ?thesis by simp
  qed
qed

lemma frame_loop_diverges:
  assumes "hop \<le> 0" "i < bound"
  shows "frame_loop body bound hop i acc = None"
proof (cases "frame_loop body bound hop i acc")
  case None
  then show ?thesis .
next
  case (Some r)
  from frame_loop_Some_terminates [OF this] assms show ?thesis by simp
qed

lemma ceil_count_less:
  fixes H d k :: nat
  assumes "0 < H" "k < (d + H - 1) div H"
  shows "k * H < d"
proof -
  from assms(2) have "Suc k \<le> (d + H - 1) div H" by simp
  then have "Suc k * H \<le> d + H - 1"
    using assms(1) by (simp add: less_eq_div_iff_mult_less_eq)
  then show ?thesis using assms(1) by simp
qed

lemma ceil_count_dvd:
  fixes H d :: nat
  assumes "0 < H"
  shows "(d + H - 1) div H = (if H dvd d then d div H else d div H + 1)"
proof (cases "H dvd d")
  case True
  then obtain q' where "d = H * q'" by (rule dvdE)
  then have q: "d = q' * H" by (simp add: mult.commute)
  define q where "q = q'"
  note q = q [folded q_def]
  have "d + H - 1 = (H - 1) + q * H" using assms q by simp
  moreover have "(H - 1 + q * H) div H = q + (H - 1) div H"
    using assms by (intro div_mult_self1) simp
  ultimately have "(d + H - 1) div H = q + (H - 1) div H" by simp
  then show ?thesis using True assms q by simp
next
  case False
  define r where "r = d mod H"
  have r: "0 < r" "r < H" using False assms by (auto simp: r_def dvd_eq_mod_eq_0)
  have "d = r + (d div H) * H" by (simp add: r_def)
  then have "d + H - 1 = (r - 1) + (d div H + 1) * H" using r by (simp add: algebra_simps)
  moreover have "(r - 1 + (d div H + 1) * H) div H = (d div H + 1) + (r - 1) div H"
    using assms by (intro div_mult_self1) simp
  ultimately have "(d + H - 1) div H = (d div H + 1) + (r - 1) div H" by simp
  then show ?thesis using False r by simp
qed

lemma frame_count_int:
  fixes H :: nat
  assumes "0 < H"
  shows "nat ((int len - int W - 0 + int H - 1) div int H) = (len - W + H - 1) div H"
proof (cases "len \<le> W")
  case True
  have "(int len - int W - 0 + int H - 1) div int H \<le> 0"
  proof (cases "int len - int W - 0 + int H - 1 < 0")
    case True
    then show ?thesis
      using assms div_neg_pos_less0 [of "int len - int W - 0 + int H - 1" "int H"] by simp
  next
    case False
    with True have "(int len - int W - 0 + int H - 1) div int H = 0"
      by (intro div_pos_pos_trivial) simp_all
    then show ?thesis by simp
  qed
  then show ?thesis using True assms by simp
next
  case False
  then have "int len - int W - 0 + int H - 1 = int (len - W + H - 1)"
    using assms by (simp add: of_nat_diff)
  then show ?thesis by (simp only: zdiv_int [symmetric] nat_int)
qed

lemma js_slice_frame:
  assumes "i + W \<le> length xs"
  shows "js_slice xs (int i) (int i + int W) = take W (drop i xs)"
  using assms by (simp add: js_slice_def Let_def min_def)

text \<open>
  C1, as the code has it. For a buffer of length \<open>len\<close>, a window \<open>W\<close> and a hop \<open>H \<ge> 1\<close>, the
  framing pass returns the frames at the offsets \<open>0, H, 2 H, \<dots>\<close> for as long as
  \<open>offset + W < len\<close>, strictly: \<open>(len - W) div H\<close> frames when \<open>H\<close> divides \<open>len - W\<close>,
  \<open>(len - W) div H + 1\<close> frames otherwise, and none when \<open>len \<le> W\<close>. Each frame has length
  exactly \<open>W\<close>.
\<close>

theorem framing_frames:
  fixes channelData :: "'a list" and W H :: nat
  assumes "0 < H"
  shows "frames channelData (int W) (int H) =
           Some (map (\<lambda>k. take W (drop (k * H) channelData))
             [0..<(if H dvd (length channelData - W) then (length channelData - W) div H
                   else (length channelData - W) div H + 1)])
         \<and> (\<forall>k < (if H dvd (length channelData - W) then (length channelData - W) div H
                   else (length channelData - W) div H + 1).
               length (take W (drop (k * H) channelData)) = W \<and> k * H + W < length channelData)"
proof -
  let ?len = "length channelData"
  let ?n = "(?len - W + H - 1) div H"
  have n: "(if H dvd (?len - W) then (?len - W) div H else (?len - W) div H + 1) = ?n"
    using ceil_count_dvd [OF assms, of "?len - W"] by simp
  have inside: "k * H + W < ?len" if "k < ?n" for k
    using ceil_count_less [OF assms that] by simp
  have hop: "0 < int H" using assms by simp
  have "frames channelData (int W) (int H) =
      Some ([] @ map (\<lambda>k. js_slice channelData (0 + int k * int H) (0 + int k * int H + int W))
        [0..<nat ((int ?len - int W - 0 + int H - 1) div int H)])"
    unfolding frames_def by (rule frame_loop_closed [OF hop])
  also have "\<dots> =
      Some (map (\<lambda>k. js_slice channelData (0 + int k * int H) (0 + int k * int H + int W)) [0..<?n])"
    by (simp only: frame_count_int [OF assms] append_Nil)
  also have "map (\<lambda>k. js_slice channelData (0 + int k * int H) (0 + int k * int H + int W)) [0..<?n] =
      map (\<lambda>k. take W (drop (k * H) channelData)) [0..<?n]"
  proof (rule map_cong [OF refl])
    fix k assume "k \<in> set [0..<?n]"
    then have "k * H + W \<le> ?len" using inside [of k] by simp
    then show "js_slice channelData (0 + int k * int H) (0 + int k * int H + int W) =
        take W (drop (k * H) channelData)"
      using js_slice_frame [of "k * H" W channelData] by simp
  qed
  finally have "frames channelData (int W) (int H) =
      Some (map (\<lambda>k. take W (drop (k * H) channelData)) [0..<?n])" .
  moreover have "length (take W (drop (k * H) channelData)) = W" if "k < ?n" for k
    using inside [OF that] by simp
  ultimately show ?thesis using inside by (simp only: n) blast
qed

text \<open>Nine samples, window 4, hop 2: three frames, at 0, 2 and 4; the sample at 8 is in none.\<close>

theorem framing_frames_witness:
  "(0::nat) < 2 \<and> frames [1, 2, 3, 4, 5, 6, 7, 8, 9 :: nat] 4 2 = Some [[1, 2, 3, 4], [3, 4, 5, 6], [5, 6, 7, 8]]"
  using framing_frames [of 2 "[1, 2, 3, 4, 5, 6, 7, 8, 9 :: nat]" 4]
  by (simp add: upt_rec)

text \<open>
  Eight samples, window 4, hop 2: the frame at offset 4 fits exactly (\<open>4 + 4 \<le> 8\<close>), so C1
  as stated expects \<open>(8 - 4) div 2 + 1 = 3\<close> frames; the loop condition \<open>i < 8 - 4\<close> stops
  after two.
\<close>

theorem framing_exact_fit_counterexample:
  "map_option length (frames [1, 2, 3, 4, 5, 6, 7, 8 :: nat] 4 2) \<noteq> Some ((8 - 4) div 2 + 1)"
  by (simp add: frames_def frame_loop.simps js_slice_def)

section \<open>The amplitude sequence\<close>

text \<open>
  Inside the buffer a sample is finite, so the sum of squares of a frame is a finite,
  non-negative number, and so is its root mean square.
\<close>

lemma sample_in_range:
  assumes "0 \<le> k" "k < int (length cd)"
  shows "sample cd k = Num (cd ! nat k)"
  using assms by (simp add: sample_def js_nth_def to_number_def)

lemma fold_samples_finite:
  assumes "\<forall>j \<in> set js. 0 \<le> i + j \<and> i + j < int (length cd)" "0 \<le> a"
  shows "\<exists>s. fold (\<lambda>j sum. sum + sample cd (i + j) * sample cd (i + j)) js (Num a) = Num s
            \<and> 0 \<le> s \<and> ((\<forall>x \<in> set cd. x = 0) \<longrightarrow> s = a)"
  using assms
proof (induction js arbitrary: a)
  case Nil
  then show ?case by simp
next
  case (Cons j js)
  define x where "x = cd ! nat (i + j)"
  have inr: "0 \<le> i + j" "i + j < int (length cd)" using Cons.prems(1) by simp_all
  then have smp: "sample cd (i + j) = Num x" by (simp add: sample_in_range x_def)
  have mem: "x \<in> set cd" using inr by (simp add: x_def)
  have nonneg: "0 \<le> a + x * x" using Cons.prems(2) by simp
  from Cons.IH [OF _ nonneg] Cons.prems(1)
  obtain s where s: "fold (\<lambda>j sum. sum + sample cd (i + j) * sample cd (i + j)) js (Num (a + x * x)) = Num s"
    "0 \<le> s" "(\<forall>x \<in> set cd. x = 0) \<longrightarrow> s = a + x * x"
    by auto
  have "fold (\<lambda>j sum. sum + sample cd (i + j) * sample cd (i + j)) (j # js) (Num a) = Num s"
    using s(1) by (simp add: smp)
  moreover have "(\<forall>x \<in> set cd. x = 0) \<longrightarrow> s = a" using s(3) mem by auto
  ultimately show ?case using s(2) by blast
qed

lemma frame_rms_finite:
  assumes "0 \<le> i" "i + W \<le> int (length cd)" "0 < W"
  shows "\<exists>r. frame_rms cd W i = Num r \<and> 0 \<le> r \<and> ((\<forall>x \<in> set cd. x = 0) \<longrightarrow> r = 0)"
proof -
  have "\<forall>j \<in> set [0..W - 1]. 0 \<le> i + j \<and> i + j < int (length cd)"
    using assms by auto
  from fold_samples_finite [OF this, of 0]
  obtain s where s: "fold (\<lambda>j sum. sum + sample cd (i + j) * sample cd (i + j)) [0..W - 1] (Num 0) = Num s"
    "0 \<le> s" "(\<forall>x \<in> set cd. x = 0) \<longrightarrow> s = 0"
    by auto
  have "frame_rms cd W i = Num (sqrt (s / real_of_int W))"
    using assms(3) s(2) by (simp add: frame_rms_def s(1))
  moreover have "0 \<le> sqrt (s / real_of_int W)" using assms(3) s(2) by simp
  moreover have "(\<forall>x \<in> set cd. x = 0) \<longrightarrow> sqrt (s / real_of_int W) = 0" using s(3) by simp
  ultimately show ?thesis by blast
qed

lemma ceil_count_less_int:
  fixes H d :: int
  assumes "0 < H" "k < nat ((d + H - 1) div H)"
  shows "int k * H < d"
proof -
  from assms(2) have "int k + 1 \<le> (d + H - 1) div H" by linarith
  then have "(int k + 1) * H \<le> ((d + H - 1) div H) * H"
    using assms(1) by (simp add: mult_right_mono)
  also have "\<dots> \<le> d + H - 1"
  proof -
    have "((d + H - 1) div H) * H + (d + H - 1) mod H = d + H - 1" by simp
    moreover have "0 \<le> (d + H - 1) mod H" using assms(1) by simp
    ultimately show ?thesis by linarith
  qed
  finally show ?thesis by (simp add: algebra_simps)
qed

lemma list_of_nums:
  assumes "\<forall>x \<in> set xs. \<exists>r. x = Num r \<and> Q r"
  shows "\<exists>rs. xs = map Num rs \<and> (\<forall>r \<in> set rs. Q r)"
  using assms
proof (induction xs)
  case Nil
  then show ?case by simp
next
  case (Cons x xs)
  then obtain r rs where "x = Num r" "Q r" "xs = map Num rs" "\<forall>r \<in> set rs. Q r" by auto
  then have "x # xs = map Num (r # rs) \<and> (\<forall>r \<in> set (r # rs). Q r)" by simp
  then show ?case by (intro exI [of _ "r # rs"])
qed

lemma basic_sizes:
  assumes "40 \<le> buf_sampleRate b"
  shows "4 \<le> basic_windowSize b" "1 \<le> basic_hopSize b"
proof -
  have "4 \<le> buf_sampleRate b * (1 / 10)" using assms by simp
  then show w: "4 \<le> basic_windowSize b" unfolding basic_windowSize_def by (simp add: le_floor_iff)
  then have "1 \<le> real_of_int (basic_windowSize b) / 4" by simp
  then show "1 \<le> basic_hopSize b" unfolding basic_hopSize_def by (simp add: le_floor_iff)
qed

lemma basic_returns:
  assumes "40 \<le> buf_sampleRate b"
  shows "\<exists>amps. basic_amplitudes b = Some amps"
  unfolding basic_amplitudes_def using frame_loop_closed basic_sizes(2) [OF assms] by force

lemma basic_amplitudes_finite:
  assumes "basic_amplitudes b = Some amps"
  shows "\<exists>rs. amps = map Num rs \<and> (\<forall>r \<in> set rs. 0 \<le> r)
            \<and> ((\<forall>x \<in> set (buf_channelData b). x = 0) \<longrightarrow> (\<forall>r \<in> set rs. r = 0))"
proof -
  define cd where "cd = buf_channelData b"
  define W where "W = basic_windowSize b"
  define H where "H = basic_hopSize b"
  have loop: "frame_loop (frame_rms cd W) (int (length cd) - W) H 0 [] = Some amps"
    using assms by (simp add: basic_amplitudes_def cd_def W_def H_def)
  from frame_loop_Some_terminates [OF loop] consider "int (length cd) - W \<le> 0" | "0 < H"
    by blast
  then show ?thesis
  proof cases
    case 1
    then have "frame_loop (frame_rms cd W) (int (length cd) - W) H 0 [] = Some []"
      by (subst frame_loop.simps) simp
    with loop have "amps = map Num []" by simp
    then show ?thesis by (intro exI [of _ "[]"]) simp
  next
    case 2
    then have "1 \<le> real_of_int W / 4" by (simp add: H_def W_def basic_hopSize_def le_floor_iff)
    then have W: "0 < W" by simp
    define n where "n = nat ((int (length cd) - W - 0 + H - 1) div H)"
    have "frame_loop (frame_rms cd W) (int (length cd) - W) H 0 [] =
        Some ([] @ map (\<lambda>k. frame_rms cd W (0 + int k * H)) [0..<n])"
      unfolding n_def using 2 by (rule frame_loop_closed)
    with loop have amps: "amps = map (\<lambda>k. frame_rms cd W (0 + int k * H)) [0..<n]" by simp
    have "\<forall>x \<in> set amps. \<exists>r. x = Num r \<and> (0 \<le> r \<and> ((\<forall>x \<in> set cd. x = 0) \<longrightarrow> r = 0))"
    proof
      fix x assume "x \<in> set amps"
      then obtain k where k: "k < n" "x = frame_rms cd W (0 + int k * H)"
        by (auto simp: amps)
      have "k < nat ((int (length cd) - W + H - 1) div H)" using k(1) by (simp add: n_def)
      from ceil_count_less_int [OF 2 this] have "int k * H + W \<le> int (length cd)" by simp
      moreover have "0 \<le> int k * H" using 2 by simp
      ultimately show "\<exists>r. x = Num r \<and> (0 \<le> r \<and> ((\<forall>x \<in> set cd. x = 0) \<longrightarrow> r = 0))"
        using frame_rms_finite [of "int k * H" W cd] W by (simp add: k(2))
    qed
    from list_of_nums [OF this] obtain rs where
      "amps = map Num rs" "\<forall>r \<in> set rs. 0 \<le> r \<and> ((\<forall>x \<in> set cd. x = 0) \<longrightarrow> r = 0)"
      by blast
    then show ?thesis by (auto simp: cd_def)
  qed
qed

lemma normalizeAmplitudes_finite:
  assumes "\<forall>r \<in> set rs. 0 \<le> r"
  shows "\<exists>ns. normalizeAmplitudes (map Num rs) = map Num ns
            \<and> (\<forall>r \<in> set ns. 0 \<le> r \<and> r \<le> 1)
            \<and> ((\<exists>r \<in> set rs. r \<noteq> 0) \<longrightarrow> Math_max (map Num ns) = Num 1)
            \<and> ((\<forall>r \<in> set rs. r = 0) \<longrightarrow> (\<forall>r \<in> set ns. r = 0))"
proof (cases "rs = []")
  case True
  then have "normalizeAmplitudes (map Num rs) = map Num []"
    by (simp add: normalizeAmplitudes_def)
  then show ?thesis using True by (intro exI [of _ "[]"]) simp
next
  case False
  define M where "M = Max (set rs)"
  have mx: "Math_max (map Num rs) = Num M" using Math_max_Num [OF False] by (simp add: M_def)
  have le: "\<forall>r \<in> set rs. r \<le> M" by (simp add: M_def)
  have Min: "M \<in> set rs" using False by (simp add: M_def)
  show ?thesis
  proof (cases "0 < M")
    case True
    define ns where "ns = map (\<lambda>r. r / M) rs"
    have norm: "normalizeAmplitudes (map Num rs) = map Num ns"
      using True by (simp add: normalizeAmplitudes_def mx ns_def)
    have unit: "\<forall>r \<in> set ns. 0 \<le> r \<and> r \<le> 1"
      using assms le True by (auto simp: ns_def)
    have one: "1 \<in> set ns" using Min True by (force simp: ns_def)
    have ne: "ns \<noteq> []" using False by (simp add: ns_def)
    have "Max (set ns) = 1" using unit one by (intro Max_eqI) auto
    then have "Math_max (map Num ns) = Num 1" using Math_max_Num [OF ne] by simp
    moreover have "\<forall>r \<in> set rs. r = 0 \<Longrightarrow> False" using Min True by auto
    ultimately show ?thesis using norm unit by blast
  next
    case notpos: False
    then have zero: "\<forall>r \<in> set rs. r = 0" using assms le by (auto simp: order.antisym)
    have "normalizeAmplitudes (map Num rs) = map Num rs"
      using notpos by (simp add: normalizeAmplitudes_def mx)
    then show ?thesis using zero by (intro exI [of _ rs]) auto
  qed
qed

lemma unit_num_iff: "unit_num x \<longleftrightarrow> (\<exists>a. x = Num a \<and> 0 \<le> a \<and> a \<le> 1)"
  by (cases x) simp_all

lemma smooth_value_unit:
  assumes "unit_num x" "unit_num y" "unit_num z"
  shows "unit_num (x * Num (1 - 4 / 5) + (y + z) * Num (4 / 5) * Num (1 / 2))"
proof -
  from assms obtain a b c where num: "x = Num a" "y = Num b" "z = Num c"
    and bounds: "0 \<le> a" "a \<le> 1" "0 \<le> b" "b \<le> 1" "0 \<le> c" "c \<le> 1"
    by (auto simp: unit_num_iff)
  have eq: "a * (1 - 4 / 5) + (b + c) * (4 / 5) * (1 / 2) = (a + 2 * b + 2 * c) / 5"
    by (simp add: field_simps)
  have "0 \<le> a + 2 * b + 2 * c" "a + 2 * b + 2 * c \<le> 5" using bounds by linarith+
  then have "0 \<le> a * (1 - 4 / 5) + (b + c) * (4 / 5) * (1 / 2)"
    "a * (1 - 4 / 5) + (b + c) * (4 / 5) * (1 / 2) \<le> 1"
    unfolding eq by simp_all
  then show ?thesis by (simp only: num times_jsnum.simps plus_jsnum.simps unit_num.simps)
qed


lemma length_smooth_step [simp]: "length (smooth_step factor i s) = length s"
  by (simp add: smooth_step_def)

lemma smooth_step_invariant:
  assumes "list_all P s" "1 \<le> i" "i + 1 < length s"
    and "\<And>x y z. P x \<Longrightarrow> P y \<Longrightarrow> P z \<Longrightarrow> P (x * Num (1 - factor) + (y + z) * Num factor * Num (1 / 2))"
  shows "list_all P (smooth_step factor i s)"
proof -
  have "P (s ! i)" "P (s ! (i - 1))" "P (s ! (i + 1))"
    using assms(1-3) by (simp_all add: list_all_length)
  then have "P (s ! i * Num (1 - factor) + (s ! (i - 1) + s ! (i + 1)) * Num factor * Num (1 / 2))"
    by (rule assms(4))
  then show ?thesis
    using assms(1)
      set_update_subset_insert [of s i "s ! i * Num (1 - factor) + (s ! (i - 1) + s ! (i + 1)) * Num factor * Num (1 / 2)"]
    by (auto simp: smooth_step_def list_all_iff)
qed

lemma fold_smooth_step_invariant:
  assumes "list_all P s" "\<forall>i \<in> set is. 1 \<le> i \<and> i + 1 < length s"
    and "\<And>x y z. P x \<Longrightarrow> P y \<Longrightarrow> P z \<Longrightarrow> P (x * Num (1 - factor) + (y + z) * Num factor * Num (1 / 2))"
  shows "list_all P (fold (smooth_step factor) is s)"
  using assms(1,2)
proof (induction "is" arbitrary: s)
  case Nil
  then show ?case by simp
next
  case (Cons i "is")
  have "list_all P (smooth_step factor i s)"
    using Cons.prems assms(3) by (intro smooth_step_invariant) simp_all
  moreover have "\<forall>j \<in> set is. 1 \<le> j \<and> j + 1 < length (smooth_step factor i s)"
    using Cons.prems(2) by simp
  ultimately show ?case using Cons.IH by simp
qed

lemma smoothArray_invariant:
  assumes "list_all P arr"
    and "\<And>x y z. P x \<Longrightarrow> P y \<Longrightarrow> P z \<Longrightarrow> P (x * Num (1 - 4 / 5) + (y + z) * Num (4 / 5) * Num (1 / 2))"
  shows "list_all P (smoothArray arr (4 / 5))"
proof -
  have "list_all P (fold (smooth_step (4 / 5)) [1..<length arr - 1] arr)"
    using assms by (intro fold_smooth_step_invariant) auto
  then show ?thesis by (simp add: smoothArray_def)
qed

text \<open>
  What the in-place pass of \<open>smoothArray\<close> leaves at each position: the two ends are
  untouched, and an inner position \<open>i\<close> blends its own value with the already smoothed
  \<open>i - 1\<close> and the original \<open>i + 1\<close>.
\<close>

lemma fold_smooth_step_nth:
  assumes "Suc m < length arr"
  shows "length (fold (smooth_step f) [1..<Suc m] arr) = length arr
       \<and> (\<forall>k. m < k \<longrightarrow> fold (smooth_step f) [1..<Suc m] arr ! k = arr ! k)
       \<and> fold (smooth_step f) [1..<Suc m] arr ! 0 = arr ! 0
       \<and> (\<forall>k. 1 \<le> k \<and> k \<le> m \<longrightarrow>
             fold (smooth_step f) [1..<Suc m] arr ! k =
               arr ! k * Num (1 - f)
               + (fold (smooth_step f) [1..<Suc m] arr ! (k - 1) + arr ! (k + 1)) * Num f * Num (1 / 2))"
  using assms
proof (induction m)
  case 0
  then show ?case by simp
next
  case (Suc m)
  define s where "s = fold (smooth_step f) [1..<Suc m] arr"
  define s' where "s' = fold (smooth_step f) [1..<Suc (Suc m)] arr"
  have step: "s' = smooth_step f (Suc m) s"
    by (simp add: s'_def s_def)
  from Suc have IH: "length s = length arr" "\<And>k. m < k \<Longrightarrow> s ! k = arr ! k" "s ! 0 = arr ! 0"
    "\<And>k. 1 \<le> k \<Longrightarrow> k \<le> m \<Longrightarrow> s ! k = arr ! k * Num (1 - f) + (s ! (k - 1) + arr ! (k + 1)) * Num f * Num (1 / 2)"
    unfolding s_def by simp_all
  have inr: "Suc m < length s" using Suc.prems IH(1) by simp
  have other: "s' ! k = s ! k" if "k \<noteq> Suc m" for k
    using that by (simp add: step smooth_step_def)
  have here: "s' ! Suc m = s ! Suc m * Num (1 - f) + (s ! m + s ! (Suc m + 1)) * Num f * Num (1 / 2)"
    using inr by (simp add: step smooth_step_def)
  have "length s' = length arr" by (simp add: step IH(1))
  moreover have "\<forall>k. Suc m < k \<longrightarrow> s' ! k = arr ! k" using other IH(2) by simp
  moreover have "s' ! 0 = arr ! 0" using other [of 0] IH(3) by simp
  moreover have "\<forall>k. 1 \<le> k \<and> k \<le> Suc m \<longrightarrow>
      s' ! k = arr ! k * Num (1 - f) + (s' ! (k - 1) + arr ! (k + 1)) * Num f * Num (1 / 2)"
  proof (intro allI impI)
    fix k assume k: "1 \<le> k \<and> k \<le> Suc m"
    show "s' ! k = arr ! k * Num (1 - f) + (s' ! (k - 1) + arr ! (k + 1)) * Num f * Num (1 / 2)"
    proof (cases "k = Suc m")
      case True
      have "s' ! (k - 1) = s ! m" using True other [of m] by simp
      then show ?thesis using here IH(2) [of "Suc m"] IH(2) [of "Suc (Suc m)"] True by simp
    next
      case False
      then have "k \<le> m" using k by simp
      moreover have "k - 1 \<noteq> Suc m" using k by linarith
      then have "s' ! (k - 1) = s ! (k - 1)" by (rule other)
      ultimately show ?thesis using IH(4) [of k] k other [of k] False by simp
    qed
  qed
  ultimately show ?case unfolding s'_def by blast
qed

lemma length_fold_smooth_step: "length (fold (smooth_step f) is arr) = length arr"
  by (induction "is" arbitrary: arr) simp_all

lemma length_smoothArray: "length (smoothArray arr f) = length arr"
  by (simp add: smoothArray_def length_fold_smooth_step)

lemma smoothArray_nth:
  assumes "0 < f"
  shows "smoothArray arr f ! i =
     (if 1 \<le> i \<and> i + 1 < length arr
      then arr ! i * Num (1 - f) + (smoothArray arr f ! (i - 1) + arr ! (i + 1)) * Num f * Num (1 / 2)
      else arr ! i)"
proof (cases "2 \<le> length arr")
  case True
  then obtain m where m: "length arr - 1 = Suc m" by (metis Suc_diff_Suc Suc_1 Suc_le_lessD diff_Suc_1 One_nat_def)
  then have lt: "Suc m < length arr" by simp
  have sm: "smoothArray arr f = fold (smooth_step f) [1..<Suc m] arr"
    unfolding smoothArray_def m using assms by (simp del: upt_Suc)
  show ?thesis
  proof (cases "1 \<le> i \<and> i + 1 < length arr")
    case True
    then have "1 \<le> i \<and> i \<le> m" using m by linarith
    with fold_smooth_step_nth [OF lt, of f] True show ?thesis unfolding sm by simp
  next
    case False
    then have "i = 0 \<or> m < i" using m by linarith
    with fold_smooth_step_nth [OF lt, of f] False show ?thesis unfolding sm by auto
  qed
next
  case False
  then have "[1..<length arr - 1] = []" by simp
  then show ?thesis using False by (simp add: smoothArray_def)
qed

lemma length_normalizeAmplitudes: "length (normalizeAmplitudes amplitudes) = length amplitudes"
  by (simp add: normalizeAmplitudes_def Let_def)

lemma smoothed_peak:
  assumes unit: "\<forall>r \<in> set ns. 0 \<le> r \<and> r \<le> 1"
    and out: "smoothArray (map Num ns) (4 / 5) = map Num os"
    and nonneg: "\<forall>r \<in> set os. 0 \<le> r"
    and k: "k < length ns" "ns ! k = 1"
  shows "1 / 5 \<le> os ! k"
proof -
  have len: "length os = length ns"
    using length_smoothArray [of "map Num ns" "4 / 5"] by (simp add: out)
  have nth: "map Num os ! k =
     (if 1 \<le> k \<and> k + 1 < length (map Num ns)
      then map Num ns ! k * Num (1 - 4 / 5) + (map Num os ! (k - 1) + map Num ns ! (k + 1)) * Num (4 / 5) * Num (1 / 2)
      else map Num ns ! k)"
    using smoothArray_nth [of "4 / 5" "map Num ns" k] by (simp add: out)
  show ?thesis
  proof (cases "1 \<le> k \<and> k + 1 < length ns")
    case True
    then have "k - 1 < length os" "k + 1 < length ns"
      using len by linarith+
    then have "os ! (k - 1) \<in> set os" "ns ! (k + 1) \<in> set ns"
      by (simp_all only: nth_mem)
    then have "0 \<le> os ! (k - 1)" "0 \<le> ns ! (k + 1)"
      using nonneg unit by blast+
    moreover have "os ! k = ns ! k * (1 - 4 / 5) + (os ! (k - 1) + ns ! (k + 1)) * (4 / 5) * (1 / 2)"
      using nth True k(1) len by simp
    ultimately show ?thesis using k(2) by simp
  next
    case False
    then have "map Num os ! k = map Num ns ! k" unfolding nth by auto
    then have "os ! k = ns ! k" using k(1) len by simp
    then show ?thesis using k(2) by simp
  qed
qed

text \<open>
  C3, as the code has it. The basic analyzer returns for every sample rate of at least 40 Hz
  (a hop of at least one sample). Whenever it returns, its amplitude sequence is the
  normalized sequence after the smoothing pass: it has one entry per frame, its two ends are
  the normalized ones, an inner entry \<open>i\<close> is
  \<open>normalized[i] \<cdot> 0.2 + (returned[i - 1] + normalized[i + 1]) \<cdot> 0.8 \<cdot> 0.5\<close>, and every entry is a
  finite number in \<open>[0, 1]\<close>. When some frame has a non-zero RMS, the normalized sequence
  before smoothing has maximum exactly 1, and the maximum of the returned sequence lies in
  \<open>[0.2, 1]\<close>. For an all-zero buffer every returned entry is 0.
\<close>

theorem basic_amplitude_normalized:
  "(40 \<le> buf_sampleRate b \<longrightarrow> (\<exists>returned. analyzeBasic b = Some returned))
   \<and> (basic_amplitudes b = Some amplitudes \<and> analyzeBasic b = Some result \<longrightarrow>
        amplitude result = smoothArray (normalizeAmplitudes amplitudes) (4 / 5)
        \<and> length (amplitude result) = length amplitudes
        \<and> (\<forall>i < length amplitudes.
              amplitude result ! i =
                (if 1 \<le> i \<and> i + 1 < length amplitudes
                 then normalizeAmplitudes amplitudes ! i * Num (1 / 5)
                      + (amplitude result ! (i - 1) + normalizeAmplitudes amplitudes ! (i + 1))
                        * Num (4 / 5) * Num (1 / 2)
                 else normalizeAmplitudes amplitudes ! i))
        \<and> list_all unit_num (amplitude result)
        \<and> ((\<exists>a \<in> set amplitudes. a \<noteq> Num 0) \<longrightarrow>
              Math_max (normalizeAmplitudes amplitudes) = Num 1
              \<and> Num (1 / 5) \<le> Math_max (amplitude result)
              \<and> Math_max (amplitude result) \<le> Num 1)
        \<and> ((\<forall>x \<in> set (buf_channelData b). x = 0) \<longrightarrow>
              list_all (\<lambda>a. a = Num 0) (amplitude result)))"
proof (intro conjI impI)
  assume "40 \<le> buf_sampleRate b"
  from basic_returns [OF this] show "\<exists>returned. analyzeBasic b = Some returned"
    by (auto simp: analyzeBasic_def)
next
  assume returned: "basic_amplitudes b = Some amplitudes \<and> analyzeBasic b = Some result"
  then have amps: "basic_amplitudes b = Some amplitudes" and res: "analyzeBasic b = Some result"
    by simp_all
  from basic_amplitudes_finite [OF amps] obtain rs where
    rs: "amplitudes = map Num rs" and nonneg: "\<forall>r \<in> set rs. 0 \<le> r"
    and silent: "(\<forall>x \<in> set (buf_channelData b). x = 0) \<longrightarrow> (\<forall>r \<in> set rs. r = 0)"
    by blast
  from normalizeAmplitudes_finite [OF nonneg] obtain ns where
    norm: "normalizeAmplitudes (map Num rs) = map Num ns"
    and unit: "\<forall>r \<in> set ns. 0 \<le> r \<and> r \<le> 1"
    and top: "(\<exists>r \<in> set rs. r \<noteq> 0) \<longrightarrow> Math_max (map Num ns) = Num 1"
    and zero: "(\<forall>r \<in> set rs. r = 0) \<longrightarrow> (\<forall>r \<in> set ns. r = 0)"
    by blast
  show smoothed: "amplitude result = smoothArray (normalizeAmplitudes amplitudes) (4 / 5)"
    using res by (auto simp: analyzeBasic_def amps)
  show len: "length (amplitude result) = length amplitudes"
    by (simp add: smoothed length_smoothArray length_normalizeAmplitudes)
  show "\<forall>i < length amplitudes.
      amplitude result ! i =
        (if 1 \<le> i \<and> i + 1 < length amplitudes
         then normalizeAmplitudes amplitudes ! i * Num (1 / 5)
              + (amplitude result ! (i - 1) + normalizeAmplitudes amplitudes ! (i + 1))
                * Num (4 / 5) * Num (1 / 2)
         else normalizeAmplitudes amplitudes ! i)"
    using smoothArray_nth [of "4 / 5" "normalizeAmplitudes amplitudes"]
    by (simp add: smoothed length_normalizeAmplitudes)
  have "list_all unit_num (map Num ns)" using unit by (simp add: list_all_iff)
  then have "list_all unit_num (smoothArray (map Num ns) (4 / 5))"
    by (rule smoothArray_invariant) (rule smooth_value_unit)
  then show units: "list_all unit_num (amplitude result)" by (simp add: smoothed rs norm)
  then have "\<forall>x \<in> set (amplitude result). \<exists>r. x = Num r \<and> (0 \<le> r \<and> r \<le> 1)"
    by (simp add: list_all_iff unit_num_iff)
  from list_of_nums [OF this] obtain os where
    os: "amplitude result = map Num os" and os_unit: "\<forall>r \<in> set os. 0 \<le> r \<and> r \<le> 1"
    by blast
  have out: "smoothArray (map Num ns) (4 / 5) = map Num os"
    using smoothed os by (simp add: rs norm)
  have os_len: "length os = length ns"
    using length_smoothArray [of "map Num ns" "4 / 5"] by (simp add: out)
  show "Math_max (normalizeAmplitudes amplitudes) = Num 1" if "\<exists>a \<in> set amplitudes. a \<noteq> Num 0"
    using that top by (auto simp: rs norm)
  have peak: "Math_max (map Num ns) = Num 1" "ns \<noteq> []" if "\<exists>a \<in> set amplitudes. a \<noteq> Num 0"
  proof -
    show "Math_max (map Num ns) = Num 1" using that top by (auto simp: rs)
    then show "ns \<noteq> []" by auto
  qed
  show "Num (1 / 5) \<le> Math_max (amplitude result)" if some: "\<exists>a \<in> set amplitudes. a \<noteq> Num 0"
  proof -
    have ne: "ns \<noteq> []" using peak(2) [OF some] .
    then have "Max (set ns) = 1" using peak(1) [OF some] Math_max_Num [OF ne] by simp
    then have "1 \<in> set ns" using Max_in [of "set ns"] ne by auto
    then obtain k where k: "k < length ns" "ns ! k = 1" by (auto simp: in_set_conv_nth)
    have "\<forall>r \<in> set os. 0 \<le> r" using os_unit by simp
    from smoothed_peak [OF unit out this k] have "1 / 5 \<le> os ! k" .
    moreover have "os ! k \<in> set os" using k(1) os_len by simp
    then have "os ! k \<le> Max (set os)" by simp
    moreover have "os \<noteq> []" using ne os_len by auto
    ultimately show ?thesis using Math_max_Num [of os] by (simp add: os)
  qed
  show "Math_max (amplitude result) \<le> Num 1" if some: "\<exists>a \<in> set amplitudes. a \<noteq> Num 0"
  proof -
    have ne: "os \<noteq> []" using peak(2) [OF some] os_len by auto
    then have "Max (set os) \<le> 1" using os_unit by simp
    then show ?thesis using Math_max_Num [OF ne] by (simp add: os)
  qed
  show "list_all (\<lambda>a. a = Num 0) (amplitude result)" if "\<forall>x \<in> set (buf_channelData b). x = 0"
  proof -
    from that silent zero have "list_all (\<lambda>a. a = Num 0) (map Num ns)" by (simp add: list_all_iff)
    then have "list_all (\<lambda>a. a = Num 0) (smoothArray (map Num ns) (4 / 5))"
      by (rule smoothArray_invariant) simp
    then show ?thesis by (simp add: smoothed rs norm)
  qed
qed

text \<open>The pulse buffer, step by step.\<close>

lemma sqrt_quarter: "sqrt (1 / 4) = 1 / 2"
  by (simp add: real_sqrt_divide)

lemma pulse_sizes: "basic_windowSize pulse_buffer = 4" "basic_hopSize pulse_buffer = 1"
  by (simp_all add: basic_windowSize_def basic_hopSize_def pulse_buffer_def)

lemma upto_0_3: "[0..(3::int)] = [0, 1, 2, 3]"
  by (simp add: upto_rec1)

lemma frame_rms_4:
  "frame_rms cd 4 i =
     Math_sqrt ((Num 0 + sample cd (i + 0) * sample cd (i + 0) + sample cd (i + 1) * sample cd (i + 1)
                 + sample cd (i + 2) * sample cd (i + 2) + sample cd (i + 3) * sample cd (i + 3))
                / Num 4)"
  by (simp add: frame_rms_def upto_0_3)

lemma pulse_sample:
  "sample (buf_channelData pulse_buffer) k = (if k = 4 then Num 1 else if 0 \<le> k \<and> k < 10 then Num 0 else NaN)"
proof -
  have "k < 0 \<or> k = 0 \<or> k = 1 \<or> k = 2 \<or> k = 3 \<or> k = 4 \<or> k = 5 \<or> k = 6 \<or> k = 7 \<or> k = 8 \<or> k = 9 \<or> 10 \<le> k"
    by arith
  then show ?thesis
    by (elim disjE) (simp_all add: sample_def js_nth_def to_number_def pulse_buffer_def)
qed

lemma pulse_amplitudes:
  "basic_amplitudes pulse_buffer =
     Some [Num 0, Num (1 / 2), Num (1 / 2), Num (1 / 2), Num (1 / 2), Num 0]"
proof -
  have "basic_amplitudes pulse_buffer =
      Some ([] @ map (\<lambda>k. frame_rms (buf_channelData pulse_buffer) 4 (0 + int k * 1))
        [0..<nat ((int (length (buf_channelData pulse_buffer)) - 4 - 0 + 1 - 1) div 1)])"
    unfolding basic_amplitudes_def pulse_sizes by (rule frame_loop_closed) simp
  also have "nat ((int (length (buf_channelData pulse_buffer)) - 4 - 0 + 1 - 1) div 1) = 6"
    by (simp add: pulse_buffer_def)
  also have "[0..<6] = [0, 1, 2, 3, 4, 5::nat]"
    by (simp add: upt_rec)
  finally show ?thesis
    by (simp add: frame_rms_4 pulse_sample sqrt_quarter)
qed

lemma pulse_normalized:
  "normalizeAmplitudes [Num 0, Num (1 / 2), Num (1 / 2), Num (1 / 2), Num (1 / 2), Num 0] =
     [Num 0, Num 1, Num 1, Num 1, Num 1, Num 0]"
  by (simp add: normalizeAmplitudes_def Math_max_def)

lemma upt_1_5: "[1..<5] = [1, 2, 3, 4::nat]"
  by (simp add: upt_rec)

lemma pulse_smoothed:
  "smoothArray [Num 0, Num 1, Num 1, Num 1, Num 1, Num 0] (4 / 5) =
     [Num 0, Num (3 / 5), Num (21 / 25), Num (117 / 125), Num (359 / 625), Num 0]"
  by (simp add: smoothArray_def upt_1_5 smooth_step_def)

lemma pulse_result:
  "map_option amplitude (analyzeBasic pulse_buffer) =
     Some [Num 0, Num (3 / 5), Num (21 / 25), Num (117 / 125), Num (359 / 625), Num 0]"
  by (simp add: analyzeBasic_def pulse_amplitudes pulse_normalized pulse_smoothed)

text \<open>
  The pulse buffer has a non-zero sample and non-zero RMS frames, and the normalized
  sequence is \<open>0, 1, 1, 1, 1, 0\<close>. Smoothing lowers every inner entry: the maximum of the
  returned sequence is \<open>117/125 = 0.936\<close>, not 1.
\<close>

theorem returned_amplitude_max_counterexample:
  "1 \<in> set (buf_channelData pulse_buffer) \<and>
   map_option (Math_max \<circ> amplitude) (analyzeBasic pulse_buffer) = Some (Num (117 / 125))"
proof -
  have "Math_max [Num 0, Num (3 / 5), Num (21 / 25), Num (117 / 125), Num (359 / 625), Num 0]
      = Num (117 / 125)"
    by (simp add: Math_max_def)
  moreover have "1 \<in> set (buf_channelData pulse_buffer)" by (simp add: pulse_buffer_def)
  ultimately show ?thesis using pulse_result by (auto simp: comp_def)
qed

text \<open>The silent buffer, step by step.\<close>

lemma silent_sizes: "basic_windowSize silent_buffer = 4" "basic_hopSize silent_buffer = 1"
  by (simp_all add: basic_windowSize_def basic_hopSize_def silent_buffer_def)

lemma silent_sample:
  "sample (buf_channelData silent_buffer) k = (if 0 \<le> k \<and> k < 10 then Num 0 else NaN)"
proof -
  have "k < 0 \<or> k = 0 \<or> k = 1 \<or> k = 2 \<or> k = 3 \<or> k = 4 \<or> k = 5 \<or> k = 6 \<or> k = 7 \<or> k = 8 \<or> k = 9 \<or> 10 \<le> k"
    by arith
  then show ?thesis
    by (elim disjE) (simp_all add: sample_def js_nth_def to_number_def silent_buffer_def)
qed

lemma silent_amplitudes:
  "basic_amplitudes silent_buffer = Some [Num 0, Num 0, Num 0, Num 0, Num 0, Num 0]"
proof -
  have "basic_amplitudes silent_buffer =
      Some ([] @ map (\<lambda>k. frame_rms (buf_channelData silent_buffer) 4 (0 + int k * 1))
        [0..<nat ((int (length (buf_channelData silent_buffer)) - 4 - 0 + 1 - 1) div 1)])"
    unfolding basic_amplitudes_def silent_sizes by (rule frame_loop_closed) simp
  also have "nat ((int (length (buf_channelData silent_buffer)) - 4 - 0 + 1 - 1) div 1) = 6"
    by (simp add: silent_buffer_def)
  also have "[0..<6] = [0, 1, 2, 3, 4, 5::nat]"
    by (simp add: upt_rec)
  finally show ?thesis
    by (simp add: frame_rms_4 silent_sample)
qed

lemma silent_normalized:
  "normalizeAmplitudes [Num 0, Num 0, Num 0, Num 0, Num 0, Num 0] =
     [Num 0, Num 0, Num 0, Num 0, Num 0, Num 0]"
  by (simp add: normalizeAmplitudes_def Math_max_def Let_def)

lemma silent_smoothed:
  "smoothArray [Num 0, Num 0, Num 0, Num 0, Num 0, Num 0] (4 / 5) =
     [Num 0, Num 0, Num 0, Num 0, Num 0, Num 0]"
  by (simp add: smoothArray_def upt_1_5 smooth_step_def)

lemma silent_result:
  "map_option amplitude (analyzeBasic silent_buffer) =
     Some [Num 0, Num 0, Num 0, Num 0, Num 0, Num 0]"
  by (simp add: analyzeBasic_def silent_amplitudes silent_normalized silent_smoothed)

text \<open>Both cases of the theorem, on the pulse buffer and on the silent buffer.\<close>

theorem basic_amplitude_normalized_witness:
  "(40::real) \<le> buf_sampleRate pulse_buffer
   \<and> basic_amplitudes pulse_buffer = Some [Num 0, Num (1 / 2), Num (1 / 2), Num (1 / 2), Num (1 / 2), Num 0]
   \<and> (\<exists>a \<in> set [Num 0, Num (1 / 2), Num (1 / 2), Num (1 / 2), Num (1 / 2), Num 0]. a \<noteq> Num 0)
   \<and> Math_max (normalizeAmplitudes [Num 0, Num (1 / 2), Num (1 / 2), Num (1 / 2), Num (1 / 2), Num 0]) = Num 1
   \<and> list_all (\<lambda>x. x = 0) (buf_channelData silent_buffer)
   \<and> map_option amplitude (analyzeBasic silent_buffer) = Some [Num 0, Num 0, Num 0, Num 0, Num 0, Num 0]"
proof -
  have rate: "(40::real) \<le> buf_sampleRate pulse_buffer"
    by (simp add: pulse_buffer_def)
  have zeros: "\<forall>x \<in> set (buf_channelData silent_buffer). x = 0"
    by (simp add: silent_buffer_def)
  from basic_amplitude_normalized [of pulse_buffer] rate
  obtain result where result: "analyzeBasic pulse_buffer = Some result"
    by blast
  from basic_amplitude_normalized
    [of pulse_buffer "[Num 0, Num (1 / 2), Num (1 / 2), Num (1 / 2), Num (1 / 2), Num 0]" result]
    pulse_amplitudes result
  have top: "Math_max (normalizeAmplitudes [Num 0, Num (1 / 2), Num (1 / 2), Num (1 / 2), Num (1 / 2), Num 0]) = Num 1"
    by auto
  show ?thesis using rate zeros top pulse_amplitudes silent_result
    by (simp add: list_all_iff)
qed

section \<open>Chroma frames\<close>

text \<open>
  The pitch-class index is always one of \<open>0, \<dots>, 11\<close>, so the write
  \<open>chroma[normalizedChromaIndex] += magnitude\<close> never extends the array; the entries stay
  non-negative, and a bin of magnitude zero changes nothing.
\<close>

lemma js_rem_index:
  "0 \<le> js_rem (js_rem r 12 + 12) 12 \<and> js_rem (js_rem r 12 + 12) 12 < 12"
proof -
  have "\<bar>js_rem r 12\<bar> < 12"
    by (simp add: js_rem_def abs_mult abs_sgn_eq)
  then have pos: "0 < js_rem r 12 + 12" by simp
  then have "js_rem (js_rem r 12 + 12) 12 = (js_rem r 12 + 12) mod 12"
    by (simp add: js_rem_def [of "js_rem r 12 + 12"])
  then show ?thesis by simp
qed

lemma length_chroma_step [simp]:
  "length (chroma_step sampleRate fftSize fft i chroma) = length chroma"
  by (simp add: chroma_step_def Let_def split: jsnum.splits)

lemma chroma_step_nonneg:
  assumes "\<forall>c \<in> set chroma. 0 \<le> c"
  shows "\<forall>c \<in> set (chroma_step sampleRate fftSize fft i chroma). 0 \<le> c"
proof -
  define magnitude where
    "magnitude = sqrt (fst (fft ! i) * fst (fft ! i) + snd (fft ! i) * snd (fft ! i))"
  have mag: "0 \<le> magnitude" by (simp add: magnitude_def)
  have upd: "\<forall>c \<in> set (chroma[k := chroma ! k + magnitude]). 0 \<le> c" for k
  proof (cases "k < length chroma")
    case True
    then have "0 \<le> chroma ! k + magnitude" using assms mag by (simp add: add_nonneg_nonneg)
    then show ?thesis using assms set_update_subset_insert [of chroma k "chroma ! k + magnitude"]
      by auto
  next
    case False
    then show ?thesis using assms by (simp add: list_update_beyond)
  qed
  show ?thesis
    using assms upd
    by (simp add: chroma_step_def Let_def magnitude_def [symmetric] split: jsnum.splits)
qed

lemma chroma_step_silent:
  assumes "fft ! i = (0, 0)"
  shows "chroma_step sampleRate fftSize fft i chroma = chroma"
  using assms by (simp add: chroma_step_def Let_def split: jsnum.splits)

lemma fold_chroma_step:
  assumes "length chroma = 12" "\<forall>c \<in> set chroma. 0 \<le> c"
  shows "length (fold (chroma_step sampleRate fftSize fft) is chroma) = 12 \<and>
         (\<forall>c \<in> set (fold (chroma_step sampleRate fftSize fft) is chroma). 0 \<le> c)"
  using assms
proof (induction "is" arbitrary: chroma)
  case Nil
  then show ?case by simp
next
  case (Cons i "is")
  show ?case
    using Cons.IH [of "chroma_step sampleRate fftSize fft i chroma"] Cons.prems
      chroma_step_nonneg [of chroma sampleRate fftSize fft i]
    by simp
qed

lemma fold_chroma_step_silent:
  assumes "\<forall>i \<in> set is. fft ! i = (0, 0)"
  shows "fold (chroma_step sampleRate fftSize fft) is chroma = chroma"
  using assms by (induction "is") (simp_all add: chroma_step_silent)

lemma chroma_accumulate_props:
  "length (chroma_accumulate fft sampleRate fftSize) = 12 \<and>
   (\<forall>c \<in> set (chroma_accumulate fft sampleRate fftSize). 0 \<le> c)"
  unfolding chroma_accumulate_def by (rule fold_chroma_step) simp_all

lemma chroma_accumulate_silent:
  assumes "\<forall>bin \<in> set fft. bin = (0, 0)"
  shows "chroma_accumulate fft sampleRate fftSize = replicate 12 0"
  unfolding chroma_accumulate_def
  by (rule fold_chroma_step_silent) (use assms in auto)


text \<open>
  C5. Every chroma vector has exactly 12 entries, each a finite number in \<open>[0, 1]\<close>; when
  the accumulated vector is zero, as it is for a frame whose bins are all zero, the result
  is the zero vector of 12 entries.
\<close>

theorem chroma_frame_invariant:
  "length (calculateChromaFromFFT fft sampleRate fftSize) = 12
   \<and> list_all unit_num (calculateChromaFromFFT fft sampleRate fftSize)
   \<and> (chroma_accumulate fft sampleRate fftSize = replicate 12 0 \<longrightarrow>
        calculateChromaFromFFT fft sampleRate fftSize = replicate 12 (Num 0))
   \<and> ((\<forall>bin \<in> set fft. bin = (0, 0)) \<longrightarrow>
        calculateChromaFromFFT fft sampleRate fftSize = replicate 12 (Num 0))"
proof -
  define chroma where "chroma = chroma_accumulate fft sampleRate fftSize"
  have len: "length chroma = 12" and nonneg: "\<forall>c \<in> set chroma. 0 \<le> c"
    using chroma_accumulate_props [of fft sampleRate fftSize] by (simp_all add: chroma_def)
  from len have ne: "chroma \<noteq> []" by auto
  define m where "m = Max (set chroma)"
  have mx: "Math_max (map Num chroma) = Num m"
    using Math_max_Num [OF ne] by (simp add: m_def)
  have le: "\<forall>c \<in> set chroma. c \<le> m" by (simp add: m_def)
  have res: "calculateChromaFromFFT fft sampleRate fftSize =
      (if 0 < m then map (\<lambda>c. Num c / Num m) chroma else replicate 12 (Num 0))"
    by (simp add: calculateChromaFromFFT_def Let_def chroma_def [symmetric] mx)
  have "length (calculateChromaFromFFT fft sampleRate fftSize) = 12"
    by (simp add: res len)
  moreover have "list_all unit_num (calculateChromaFromFFT fft sampleRate fftSize)"
    using nonneg le by (auto simp: res list_all_iff)
  moreover have zero: "calculateChromaFromFFT fft sampleRate fftSize = replicate 12 (Num 0)"
    if "chroma = replicate 12 0"
  proof -
    from that have "m = 0" by (simp add: m_def)
    then show ?thesis by (simp add: res)
  qed
  moreover have "calculateChromaFromFFT fft sampleRate fftSize = replicate 12 (Num 0)"
    if "\<forall>bin \<in> set fft. bin = (0, 0)"
    using zero chroma_accumulate_silent [OF that] by (simp add: chroma_def)
  ultimately show ?thesis by (simp add: chroma_def)
qed

text \<open>A silent frame of four bins.\<close>

theorem chroma_frame_invariant_witness:
  "list_all (\<lambda>bin. bin = (0, 0 :: real)) [(0, 0), (0, 0), (0, 0), (0, 0)]
   \<and> chroma_accumulate [(0, 0), (0, 0), (0, 0), (0, 0)] 400 4 = replicate 12 0
   \<and> calculateChromaFromFFT [(0, 0), (0, 0), (0, 0), (0, 0)] 400 4 = replicate 12 (Num 0)"
  using chroma_frame_invariant [of "[(0, 0), (0, 0), (0, 0), (0, 0)]" 400 4]
    chroma_accumulate_silent [of "[(0, 0), (0, 0), (0, 0), (0, 0)]" 400 4]
  by simp

text \<open>
  The chroma analyzer always returns (its hop is 1024), with one such vector per frame.
\<close>

lemma analyzeChroma_returns:
  "\<exists>result. analyzeChroma b = Some result \<and>
     length (chromaFeatures result) = (length (buf_channelData b) - 2048 + 1024 - 1) div 1024 \<and>
     (\<forall>chroma \<in> set (chromaFeatures result). length chroma = 12 \<and> list_all unit_num chroma)"
proof -
  define body where "body = (\<lambda>i. calculateChromaFromFFT
      (performFFT (js_slice (buf_channelData b) i (i + 2048))) (buf_sampleRate b) 2048)"
  define n where "n = nat ((int (length (buf_channelData b)) - int 2048 - 0 + int 1024 - 1) div int 1024)"
  have loop: "frame_loop body (int (length (buf_channelData b)) - 2048) 1024 0 [] =
      Some ([] @ map (\<lambda>k. body (0 + int k * 1024)) [0..<n])"
    using frame_loop_closed [of 1024 body "int (length (buf_channelData b)) - 2048" 0 "[]"]
    by (simp add: n_def)
  have n: "n = (length (buf_channelData b) - 2048 + 1024 - 1) div 1024"
    unfolding n_def by (rule frame_count_int) simp
  have "analyzeChroma b =
      Some \<lparr>chromaFeatures = map (\<lambda>k. body (0 + int k * 1024)) [0..<n],
            chroma_sampleRate = buf_sampleRate b, chroma_duration = buf_duration b,
            chroma_fftSize = 2048, chroma_hopSize = 1024,
            noteNames = [''C'', ''C#'', ''D'', ''D#'', ''E'', ''F'', ''F#'', ''G'', ''G#'',
                         ''A'', ''A#'', ''B'']\<rparr>"
    using loop by (simp add: analyzeChroma_def Let_def body_def [symmetric])
  moreover have "length (body i) = 12 \<and> list_all unit_num (body i)" for i
    using chroma_frame_invariant by (simp add: body_def)
  ultimately show ?thesis using n by auto
qed

section \<open>Beats and tempo\<close>

text \<open>
  A frame is appended only when it is more than \<open>minBeatInterval\<close> frames after the last
  beat, whatever the peak test says; more than \<open>\<lfloor>0.3 sampleRate / hopSize\<rfloor>\<close> frames is more
  than 0.3 seconds.
\<close>

lemma beat_step_gap:
  assumes "\<And>a b. m < Num (real_of_int (b - a)) \<Longrightarrow> P a b" "successively P beats"
  shows "successively P (beat_step nd w m i beats)"
  using assms by (auto simp: beat_step_def successively_append_iff simp del: of_int_diff)

lemma fold_beat_step_gap:
  assumes "\<And>a b. m < Num (real_of_int (b - a)) \<Longrightarrow> P a b" "successively P beats"
  shows "successively P (fold (beat_step nd w m) is beats)"
  using assms(2)
proof (induction "is" arbitrary: beats)
  case Nil
  then show ?case by simp
next
  case (Cons i "is")
  have "successively P (beat_step nd w m i beats)"
    using assms(1) Cons.prems by (rule beat_step_gap)
  then show ?case using Cons.IH by simp
qed

lemma frame_gap_seconds:
  fixes sampleRate hopSize :: real and a b :: int
  assumes "0 < sampleRate" "0 < hopSize"
    and "of_int \<lfloor>3 / 10 * sampleRate / hopSize\<rfloor> < real_of_int (b - a)"
  shows "3 / 10 < real_of_int b * hopSize / sampleRate - real_of_int a * hopSize / sampleRate"
proof -
  have "\<lfloor>3 / 10 * sampleRate / hopSize\<rfloor> < b - a" using assms(3) by linarith
  then have "\<lfloor>3 / 10 * sampleRate / hopSize\<rfloor> + 1 \<le> b - a" by simp
  then have "real_of_int (\<lfloor>3 / 10 * sampleRate / hopSize\<rfloor> + 1) \<le> real_of_int (b - a)"
    by (simp only: of_int_le_iff)
  moreover have "3 / 10 * sampleRate / hopSize < real_of_int (\<lfloor>3 / 10 * sampleRate / hopSize\<rfloor> + 1)"
    by linarith
  ultimately have "3 / 10 * sampleRate / hopSize < real_of_int (b - a)" by linarith
  then have "3 / 10 * sampleRate < real_of_int (b - a) * hopSize"
    using assms(2) by (simp add: pos_divide_less_eq)
  then have "3 / 10 < real_of_int (b - a) * hopSize / sampleRate"
    using assms(1) by (simp add: pos_less_divide_eq)
  then show ?thesis by (simp add: algebra_simps diff_divide_distrib)
qed

text \<open>
  C6. For a positive sample rate and hop size the beat detector returns finite beat times
  that are strictly increasing, any two consecutive ones at least 300 ms apart.
\<close>

theorem beats_ordered:
  assumes "0 < sampleRate" "0 < hopSize"
  shows "\<exists>times. findBeats energyData onsetData sampleRate hopSize = Some (map Num times)
           \<and> sorted_wrt (<) times
           \<and> successively (\<lambda>s t. 3 / 10 \<le> t - s) times"
proof -
  define m where "m = Num (of_int \<lfloor>3 / 10 * sampleRate / hopSize\<rfloor>)"
  define w where "w = \<lfloor>sampleRate / hopSize\<rfloor>"
  define nd where "nd = normalizedData energyData onsetData"
  define beats where "beats = fold (beat_step nd w m) [w..int (length nd) - w - 1] []"
  define times where "times = map (\<lambda>f. real_of_int f * hopSize / sampleRate) beats"
  have mbi: "Math_floor (Num (3 / 10) * Num sampleRate / Num hopSize) = m"
    using assms by (simp add: m_def)
  have win: "Math_floor (Num sampleRate / Num hopSize) = Num (of_int w)"
    using assms by (simp add: w_def)
  have "findBeats energyData onsetData sampleRate hopSize =
      Some (map (\<lambda>frameIndex. Num (real_of_int frameIndex * hopSize) / Num sampleRate) beats)"
    unfolding findBeats_def mbi win by (simp add: Let_def beats_def nd_def)
  also have "map (\<lambda>frameIndex. Num (real_of_int frameIndex * hopSize) / Num sampleRate) beats =
      map Num times"
    using assms by (simp add: times_def)
  finally have res: "findBeats energyData onsetData sampleRate hopSize = Some (map Num times)" .
  have frames: "successively
      (\<lambda>a b. 3 / 10 < real_of_int b * hopSize / sampleRate - real_of_int a * hopSize / sampleRate) beats"
    unfolding beats_def
  proof (rule fold_beat_step_gap)
    fix a b :: int
    assume "m < Num (real_of_int (b - a))"
    then have "of_int \<lfloor>3 / 10 * sampleRate / hopSize\<rfloor> < real_of_int (b - a)"
      by (simp only: m_def less_jsnum.simps)
    with assms show "3 / 10 < real_of_int b * hopSize / sampleRate - real_of_int a * hopSize / sampleRate"
      by (rule frame_gap_seconds)
  qed simp
  then have gap: "successively (\<lambda>s t. 3 / 10 < t - s) times"
    by (simp add: times_def successively_map)
  then have "successively (<) times"
    by (rule successively_mono) simp
  then have "sorted_wrt (<) times"
    by (simp add: successively_conv_sorted_wrt)
  moreover from gap have "successively (\<lambda>s t. 3 / 10 \<le> t - s) times"
    by (rule successively_mono) simp
  ultimately show ?thesis using res by blast
qed

text \<open>Two peaks, at frames 1 and 4, at one frame per second.\<close>

lemma findBeats_example:
  "findBeats (map Num [0, 1, 0, 0, 1, 0]) [] 1 1 = Some [Num 1, Num 4]"
  by (simp add: findBeats_def normalizedData_def combinedData_def beat_step_def is_peak_def
      Math_max_def num_at_def js_nth_def to_number_def or_default_def Let_def upt_rec upto_rec1)

theorem beats_ordered_witness:
  "(0::real) < 1 \<and> findBeats (map Num [0, 1, 0, 0, 1, 0]) [] 1 1 = Some (map Num [1, 4])
   \<and> sorted_wrt (<) [1, 4 :: real] \<and> successively (\<lambda>s t. 3 / 10 \<le> t - s) [1, 4 :: real]"
  using beats_ordered [of 1 1 "map Num [0, 1, 0, 0, 1, 0]" "[]"] findBeats_example
  by simp

text \<open>
  What \<open>calculateTempo\<close> returns for two or more beats with a positive median interval,
  with \<open>bpm = 60 / medianInterval\<close>: the second test of each fold (\<open>2 bpm \<le> 200\<close> after
  \<open>bpm < 60\<close>, \<open>bpm / 2 \<ge> 60\<close> after \<open>bpm > 200\<close>) follows from the first, so every \<open>bpm\<close>
  below 60 is doubled and every \<open>bpm\<close> above 200 is halved, once; the rounding is reached
  only from 60 to 200.
\<close>

lemma calculateTempo_cases:
  assumes "2 \<le> length beats" "0 < medianInterval beats"
  shows "calculateTempo beats duration =
        (let bpm = 60 / medianInterval beats
         in if bpm < 60 then Num (bpm * 2)
            else if 200 < bpm then Num (bpm / 2)
            else Num (of_int \<lfloor>bpm + 1 / 2\<rfloor>))"
  using assms by (auto simp: calculateTempo_def Let_def)

lemma round_in_range:
  fixes bpm :: real
  assumes "60 \<le> bpm" "bpm \<le> 200"
  shows "60 \<le> real_of_int \<lfloor>bpm + 1 / 2\<rfloor>" "real_of_int \<lfloor>bpm + 1 / 2\<rfloor> \<le> 200"
proof -
  have "(60::int) \<le> \<lfloor>bpm + 1 / 2\<rfloor>" using assms(1) by (simp add: le_floor_iff)
  then show "60 \<le> real_of_int \<lfloor>bpm + 1 / 2\<rfloor>" by linarith
  have "\<lfloor>bpm + 1 / 2\<rfloor> \<le> (200::int)" using assms(2) by (simp add: floor_le_iff)
  then show "real_of_int \<lfloor>bpm + 1 / 2\<rfloor> \<le> 200" by linarith
qed

text \<open>
  C7, as the code has it. Fewer than two beats give tempo 0. Otherwise, with a positive
  median interval and \<open>bpm = 60 / medianInterval\<close>: from 30 up to 60 the tempo is \<open>2 bpm\<close>,
  above 200 up to 400 it is \<open>bpm / 2\<close>, and from 60 to 200 it is \<open>bpm\<close> rounded to the
  nearest integer; in all three cases it lies in \<open>[60, 200]\<close>.
\<close>

theorem calculateTempo_fold:
  "(length beats < 2 \<longrightarrow> calculateTempo beats duration = Num 0) \<and>
   (2 \<le> length beats \<and> 0 < medianInterval beats \<longrightarrow>
      (30 \<le> 60 / medianInterval beats \<and> 60 / medianInterval beats < 60 \<longrightarrow>
         calculateTempo beats duration = Num (60 / medianInterval beats * 2)) \<and>
      (200 < 60 / medianInterval beats \<and> 60 / medianInterval beats \<le> 400 \<longrightarrow>
         calculateTempo beats duration = Num (60 / medianInterval beats / 2)) \<and>
      (60 \<le> 60 / medianInterval beats \<and> 60 / medianInterval beats \<le> 200 \<longrightarrow>
         calculateTempo beats duration = Num (of_int \<lfloor>60 / medianInterval beats + 1 / 2\<rfloor>)) \<and>
      (30 \<le> 60 / medianInterval beats \<and> 60 / medianInterval beats \<le> 400 \<longrightarrow>
         Num 60 \<le> calculateTempo beats duration \<and> calculateTempo beats duration \<le> Num 200))"
proof (intro conjI impI)
  assume "length beats < 2"
  then show "calculateTempo beats duration = Num 0" by (simp add: calculateTempo_def)
next
  assume h: "2 \<le> length beats \<and> 0 < medianInterval beats"
    and r: "30 \<le> 60 / medianInterval beats \<and> 60 / medianInterval beats < 60"
  show "calculateTempo beats duration = Num (60 / medianInterval beats * 2)"
    using calculateTempo_cases [of beats duration] h r by (simp add: Let_def)
next
  assume h: "2 \<le> length beats \<and> 0 < medianInterval beats"
    and r: "200 < 60 / medianInterval beats \<and> 60 / medianInterval beats \<le> 400"
  show "calculateTempo beats duration = Num (60 / medianInterval beats / 2)"
    using calculateTempo_cases [of beats duration] h r by (simp add: Let_def)
next
  assume h: "2 \<le> length beats \<and> 0 < medianInterval beats"
    and r: "60 \<le> 60 / medianInterval beats \<and> 60 / medianInterval beats \<le> 200"
  show "calculateTempo beats duration = Num (of_int \<lfloor>60 / medianInterval beats + 1 / 2\<rfloor>)"
    using calculateTempo_cases [of beats duration] h r by (simp add: Let_def)
next
  assume h: "2 \<le> length beats \<and> 0 < medianInterval beats"
    and r: "30 \<le> 60 / medianInterval beats \<and> 60 / medianInterval beats \<le> 400"
  define bpm where "bpm = 60 / medianInterval beats"
  have res: "calculateTempo beats duration =
      (if bpm < 60 then Num (bpm * 2) else if 200 < bpm then Num (bpm / 2)
       else Num (of_int \<lfloor>bpm + 1 / 2\<rfloor>))"
    using calculateTempo_cases [of beats duration] h by (simp add: Let_def bpm_def)
  have range: "30 \<le> bpm" "bpm \<le> 400" using r by (simp_all add: bpm_def)
  consider "bpm < 60" | "200 < bpm" | "60 \<le> bpm" "bpm \<le> 200" by linarith
  then have "Num 60 \<le> calculateTempo beats duration \<and> calculateTempo beats duration \<le> Num 200"
  proof cases
    case 1
    then show ?thesis using range by (simp add: res)
  next
    case 2
    then show ?thesis using range by (simp add: res)
  next
    case 3
    then show ?thesis using round_in_range [of bpm] by (simp add: res)
  qed
  then show "Num 60 \<le> calculateTempo beats duration" "calculateTempo beats duration \<le> Num 200"
    by simp_all
qed

lemma medianInterval_pair: "medianInterval [0, t] = t"
  by (simp add: medianInterval_def beat_intervals_def upt_rec)

text \<open>
  One beat gives 0; beats 1.5 s apart (40 BPM) give 80, beats 0.2 s apart (300 BPM) give
  150, beats 0.7 s apart (85.7 BPM) give 86.
\<close>

theorem calculateTempo_fold_witness:
  "calculateTempo [0] 1 = Num 0
   \<and> calculateTempo [0, 3 / 2] 2 = Num 80
   \<and> calculateTempo [0, 1 / 5] 1 = Num 150
   \<and> calculateTempo [0, 7 / 10] 1 = Num 86"
  using calculateTempo_fold [of "[0]" 1] calculateTempo_fold [of "[0, 3 / 2]" 2]
    calculateTempo_fold [of "[0, 1 / 5]" 1] calculateTempo_fold [of "[0, 7 / 10]" 1]
  by (simp add: medianInterval_pair)

text \<open>
  Two beats three seconds apart: the raw tempo is 20, the result is 40, which is neither in
  \<open>[60, 200]\<close> nor the raw value. Two beats 0.7 s apart: the raw tempo \<open>600/7\<close> is in range,
  and the result is 86, not the raw value.
\<close>

theorem calculateTempo_out_of_range_counterexample:
  "\<not> (Num 60 \<le> calculateTempo [0, 3] 3)
   \<and> calculateTempo [0, 3] 3 \<noteq> Num 60 / Num (medianInterval [0, 3])
   \<and> calculateTempo [0, 7 / 10] 1 \<noteq> Num 60 / Num (medianInterval [0, 7 / 10])"
  by (simp add: calculateTempo_def medianInterval_pair)

section \<open>Spectral features of a silent frame\<close>

text \<open>The total energy is zero exactly when every magnitude is zero.\<close>

lemma fold_squares_nonneg:
  "0 \<le> s \<Longrightarrow> 0 \<le> fold (\<lambda>mag sum. sum + mag * mag) spectrum (s::real)"
  by (induction spectrum arbitrary: s) simp_all

lemma fold_squares_zero_iff:
  "0 \<le> s \<Longrightarrow> fold (\<lambda>mag sum. sum + mag * mag) spectrum (s::real) = 0 \<longleftrightarrow> s = 0 \<and> (\<forall>mag \<in> set spectrum. mag = 0)"
proof (induction spectrum arbitrary: s)
  case Nil
  then show ?case by simp
next
  case (Cons mag spectrum)
  have "0 \<le> s + mag * mag" using Cons.prems by simp
  from Cons.IH [OF this] show ?case
    using Cons.prems by (auto simp: add_nonneg_eq_0_iff)
qed

lemma totalEnergy_zero_iff:
  "totalEnergy_of spectrum = Num 0 \<longleftrightarrow> (\<forall>mag \<in> set spectrum. mag = 0)"
  by (simp add: totalEnergy_of_def fold_squares_zero_iff)

text \<open>
  C8. For a frame whose total spectral energy is zero, every feature (centroid, bandwidth,
  rolloff, flux, flatness, crest, energy, slope, kurtosis, skewness) is the finite number 0,
  whatever the sample rate, the FFT size and the previous spectrum.
\<close>

theorem silent_frame_features_zero:
  assumes "totalEnergy_of spectrum = Num 0"
  shows "calculateSpectralFeatures spectrum sampleRate fftSize previousSpectrum =
    \<lparr>centroid = Num 0, bandwidth = Num 0, rolloff = Num 0, flux = Num 0, flatness = Num 0,
     crest = Num 0, energy = Num 0, slope = Num 0, kurtosis = Num 0, skewness = Num 0\<rparr>"
  using assms by (simp add: calculateSpectralFeatures_def js_eq_def Let_def)

text \<open>Three zero bins after a non-zero previous spectrum.\<close>

theorem silent_frame_features_zero_witness:
  "totalEnergy_of [0, 0, 0] = Num 0 \<and>
   calculateSpectralFeatures [0, 0, 0] 44100 2048 (Some [1, 2, 3]) =
    \<lparr>centroid = Num 0, bandwidth = Num 0, rolloff = Num 0, flux = Num 0, flatness = Num 0,
     crest = Num 0, energy = Num 0, slope = Num 0, kurtosis = Num 0, skewness = Num 0\<rparr>"
  using silent_frame_features_zero [of "[0, 0, 0]" 44100 2048 "Some [1, 2, 3]"]
  by (simp add: totalEnergy_of_def)

section \<open>The FFT size check and the Hann window\<close>

text \<open>
  \<open>Math.log2(size)\<close> is an integer exactly for the powers of two. So every other size, 100
  for one, fails the size check with its message, and the powers of two from 2 to \<open>2^31\<close>
  construct.
\<close>

lemma log2_integer_iff:
  fixes n :: nat
  shows "Number_isInteger (Math_log2 (Num (real n))) \<longleftrightarrow> (\<exists>k. n = 2 ^ k)"
proof
  assume int: "Number_isInteger (Math_log2 (Num (real n)))"
  then have pos: "0 < n" by (cases "n = 0") simp_all
  with int have eq: "log 2 (real n) = of_int \<lfloor>log 2 (real n)\<rfloor>" by simp
  define z where "z = \<lfloor>log 2 (real n)\<rfloor>"
  have "0 \<le> log 2 (real n)" using pos by simp
  then have z0: "0 \<le> z" by (simp add: z_def)
  have "real n = 2 powr (log 2 (real n))" using pos by simp
  also have "\<dots> = 2 powr (of_int z)" using eq by (simp add: z_def)
  also have "\<dots> = 2 ^ nat z" using z0 by (simp add: powr_realpow [symmetric])
  finally have "real n = real (2 ^ nat z)" by simp
  then have "n = 2 ^ nat z" by (simp only: of_nat_eq_iff)
  then show "\<exists>k. n = 2 ^ k" ..
next
  assume "\<exists>k. n = 2 ^ k"
  then obtain k where "n = 2 ^ k" ..
  then show "Number_isInteger (Math_log2 (Num (real n)))" by simp
qed

lemma FFT_constructor_not_power_of_two:
  assumes "\<forall>k. size' \<noteq> 2 ^ k"
  shows "FFT_constructor size' = Inl (Error ''FFT size must be a power of 2'')"
  using assms log2_integer_iff [of size'] by (simp add: FFT_constructor_def Let_def)

lemma hundred_not_power_of_two: "(100::nat) \<noteq> 2 ^ k"
proof
  assume h: "(100::nat) = 2 ^ k"
  show False
  proof (cases "k \<le> 6")
    case True
    then have "(2::nat) ^ k \<le> 2 ^ 6" by (intro power_increasing) simp_all
    with h show False by simp
  next
    case False
    then have "(2::nat) ^ 7 \<le> 2 ^ k" by (intro power_increasing) simp_all
    with h show False by simp
  qed
qed

lemma FFT_constructor_100: "FFT_constructor 100 = Inl (Error ''FFT size must be a power of 2'')"
  by (rule FFT_constructor_not_power_of_two) (simp add: hundred_not_power_of_two)

lemma FFT_constructor_power_of_two:
  assumes "1 \<le> k" "k \<le> 31"
  shows "\<exists>fft. FFT_constructor (2 ^ k) = Inr fft \<and> fft_size fft = 2 ^ k"
proof -
  have int: "Number_isInteger (Math_log2 (Num (real ((2::nat) ^ k))))"
    using log2_integer_iff [of "2 ^ k"] by blast
  have "(2::real) ^ k \<le> 2 ^ 31" using assms by (intro power_increasing) simp_all
  then have len: "valid_array_length (Num (real ((2::nat) ^ k)))" by simp
  obtain j where k: "k = Suc j" using assms by (cases k) simp_all
  have "(2::real) ^ j \<le> 2 ^ 31" using assms k by (intro power_increasing) simp_all
  then have half: "valid_array_length (Num (real ((2::nat) ^ k)) / Num 2)"
    by (simp add: k)
  show ?thesis using int len half by (simp add: FFT_constructor_def Let_def)
qed

text \<open>
  C4 at size 1. The size \<open>1 = 2^0\<close> is a power of two and passes the size check, but the
  twiddle table is then allocated with \<open>new Array(size / 2) = new Array(0.5)\<close>, which throws
  a \<open>RangeError\<close>.
\<close>

theorem FFT_constructor_size_one_throws:
  "FFT_constructor 1 = Inl RangeError"
  by (simp add: FFT_constructor_def Let_def)

subsection \<open>Rounding errors\<close>

text \<open>
  How a relative error grows through one more rounding and through a quotient, how far
  the cosine moves with its argument, and what one rounding does to a number that is not
  tiny and to the size of a number.
\<close>

lemma cos_lipschitz: "\<bar>cos s - cos t\<bar> \<le> \<bar>s - t\<bar>" for s t :: real
proof -
  have half: "\<bar>sin ((t - s) / 2)\<bar> \<le> \<bar>t - s\<bar> / 2"
    using abs_sin_x_le_abs_x [of "(t - s) / 2"] by simp
  have "cos s - cos t = 2 * sin ((s + t) / 2) * sin ((t - s) / 2)"
    by (rule cos_diff_cos)
  then have "\<bar>cos s - cos t\<bar> = 2 * (\<bar>sin ((s + t) / 2)\<bar> * \<bar>sin ((t - s) / 2)\<bar>)"
    by (simp add: abs_mult)
  also have "\<bar>sin ((s + t) / 2)\<bar> * \<bar>sin ((t - s) / 2)\<bar> \<le> 1 * (\<bar>t - s\<bar> / 2)"
    using half by (intro mult_mono) simp_all
  finally show ?thesis by simp
qed

lemma rounding_error:
  fixes x y xh :: real
  assumes "\<bar>xh - x\<bar> \<le> c * \<bar>x\<bar>" "\<bar>y - xh\<bar> \<le> u * \<bar>xh\<bar>" "0 \<le> u" "c + u * (1 + c) \<le> c'"
  shows "\<bar>y - x\<bar> \<le> c' * \<bar>x\<bar>"
proof -
  have "\<bar>xh\<bar> \<le> \<bar>x\<bar> + c * \<bar>x\<bar>" using assms(1) by linarith
  then have "u * \<bar>xh\<bar> \<le> u * (\<bar>x\<bar> + c * \<bar>x\<bar>)" using assms(3) by (rule mult_left_mono)
  then have "\<bar>y - x\<bar> \<le> u * (\<bar>x\<bar> + c * \<bar>x\<bar>) + c * \<bar>x\<bar>" using assms(1,2) by linarith
  also have "\<dots> = (c + u * (1 + c)) * \<bar>x\<bar>" by (simp add: algebra_simps)
  also have "\<dots> \<le> c' * \<bar>x\<bar>" using assms(4) by (intro mult_right_mono) simp_all
  finally show ?thesis .
qed

lemma quotient_error:
  fixes r A m n :: real
  assumes r: "\<bar>r - A\<bar> \<le> c * \<bar>A\<bar>" and m: "\<bar>m - n\<bar> \<le> d * n"
    and n: "0 < n" and c: "0 \<le> c" and d: "0 \<le> d" "d < 1" and c': "c + d \<le> c' * (1 - d)"
  shows "\<bar>r / m - A / n\<bar> \<le> c' * \<bar>A / n\<bar>"
proof -
  have "n - d * n \<le> m" using m by linarith
  then have low: "n * (1 - d) \<le> m" by (simp add: algebra_simps)
  have "0 < n * (1 - d)" using n d by simp
  then have mpos: "0 < m" using low by linarith
  have c'pos: "0 \<le> c'"
  proof (rule ccontr)
    assume "\<not> 0 \<le> c'"
    then have "c' * (1 - d) < 0" using d by (simp add: mult_less_0_iff)
    then show False using c' c d by linarith
  qed
  have "r * n - A * m = (r - A) * n - A * (m - n)" by (simp add: algebra_simps)
  then have "\<bar>r * n - A * m\<bar> \<le> \<bar>r - A\<bar> * n + \<bar>A\<bar> * \<bar>m - n\<bar>"
    using n by (simp add: abs_mult [symmetric] del: abs_mult) (metis abs_mult abs_of_pos abs_triangle_ineq4 n)
  also have "\<dots> \<le> (c * \<bar>A\<bar>) * n + \<bar>A\<bar> * (d * n)"
    using r m n by (intro add_mono mult_right_mono mult_left_mono) simp_all
  also have "\<dots> = (c + d) * (\<bar>A\<bar> * n)" by (simp add: algebra_simps)
  also have "\<dots> \<le> (c' * (1 - d)) * (\<bar>A\<bar> * n)"
    using c' n by (intro mult_right_mono) simp_all
  also have "\<dots> = (c' * \<bar>A\<bar>) * (n * (1 - d))" by (simp add: algebra_simps)
  also have "\<dots> \<le> (c' * \<bar>A\<bar>) * m"
    using low c'pos by (intro mult_left_mono) simp_all
  finally have num: "\<bar>r * n - A * m\<bar> \<le> c' * \<bar>A\<bar> * m" .
  have "r / m - A / n = (r * n - A * m) / (m * n)"
    using mpos n by (simp add: field_simps)
  then have "\<bar>r / m - A / n\<bar> = \<bar>r * n - A * m\<bar> / (m * n)"
    using mpos n by (simp add: abs_mult)
  also have "\<dots> \<le> (c' * \<bar>A\<bar> * m) / (m * n)"
    using num mpos n by (intro divide_right_mono) simp_all
  also have "\<dots> = c' * \<bar>A / n\<bar>" using mpos n by (simp add: field_simps)
  finally show ?thesis .
qed

lemma fl_relative:
  fixes f :: "real \<Rightarrow> real"
  assumes F: "\<And>x. \<bar>f x - x\<bar> \<le> \<bar>x\<bar> / 2 ^ 53 + 1 / 2 ^ 1075" and x: "1 / 2 ^ 40 \<le> \<bar>x\<bar>"
  shows "\<bar>f x - x\<bar> \<le> (1001 / 1000 / 2 ^ 53) * \<bar>x\<bar>"
proof -
  have "(1::real) / 2 ^ 1075 \<le> (1 / 1000 / 2 ^ 53) * (1 / 2 ^ 40)" by simp
  also have "\<dots> \<le> (1 / 1000 / 2 ^ 53) * \<bar>x\<bar>" using x by (intro mult_left_mono) simp_all
  finally show ?thesis using F [of x] by (simp add: algebra_simps)
qed

lemma fl_bound:
  fixes f :: "real \<Rightarrow> real"
  assumes F: "\<And>x. \<bar>f x - x\<bar> \<le> \<bar>x\<bar> / 2 ^ 53 + 1 / 2 ^ 1075" and x: "\<bar>x\<bar> \<le> b"
  shows "\<bar>f x\<bar> \<le> 2 * b + 1"
proof -
  have "\<bar>x\<bar> / 2 ^ 53 \<le> \<bar>x\<bar>" by (simp add: field_simps)
  moreover have "(1::real) / 2 ^ 1075 \<le> 1" by simp
  ultimately show ?thesis using F [of x] x by linarith
qed

text \<open>
  The Hann coefficient as the loop body computes it, operation by operation, against the
  exact value \<open>0.5 (1 - cos(2 \<pi> i / n))\<close>, for an index \<open>i\<close> from 0 to \<open>n = size - 1\<close>: no
  intermediate result overflows, the divisor is not zero, the angle is off by at most
  \<open>40.1 \<cdot> 2^-53\<close> and the coefficient by at most \<open>24 \<cdot> 2^-53\<close>.
\<close>

lemma hann_value_error:
  fixes f c :: "real \<Rightarrow> real" and n i P Q R M T S W :: real
  assumes F: "\<And>x. \<bar>f x - x\<bar> \<le> \<bar>x\<bar> / 2 ^ 53 + 1 / 2 ^ 1075"
    and C: "\<And>x. \<bar>c x - cos x\<bar> \<le> 1 / 2 ^ 52"
    and n: "1 \<le> n" "n \<le> 2 ^ 32" and i: "i = 0 \<or> 1 \<le> i" "i \<le> n"
  defines "P \<equiv> f pi" and "Q \<equiv> f (2 * P)" and "R \<equiv> f (Q * i)" and "M \<equiv> f n"
    and "T \<equiv> f (R / M)" and "S \<equiv> f (1 - c T)" and "W \<equiv> f (1 / 2 * S)"
  shows "\<bar>P\<bar> \<le> 2 ^ 50" and "\<bar>Q\<bar> \<le> 2 ^ 50" and "\<bar>R\<bar> \<le> 2 ^ 50" and "\<bar>M\<bar> \<le> 2 ^ 50"
    and "M \<noteq> 0" and "\<bar>T\<bar> \<le> 2 ^ 50" and "\<bar>S\<bar> \<le> 2 ^ 50" and "\<bar>W\<bar> \<le> 2 ^ 50"
    and "\<bar>W - 1 / 2 * (1 - cos (2 * pi * i / n))\<bar> \<le> 24 / 2 ^ 53"
proof -
  define u :: real where "u = 1 / 2 ^ 53"
  define v :: real where "v = 1001 / 1000 * u"
  define eta :: real where "eta = 1 / 2 ^ 1075"
  have u: "0 \<le> u" "u \<le> 1 / 10000" and v: "0 \<le> v" and eta: "0 \<le> eta" "eta \<le> u / 1000"
    by (simp_all add: u_def v_def eta_def)
  have Fa: "\<bar>f x - x\<bar> \<le> u * \<bar>x\<bar> + eta" for x using F [of x] by (simp add: u_def eta_def)
  have Fv: "\<bar>f x - x\<bar> \<le> v * \<bar>x\<bar>" if "1 / 2 ^ 40 \<le> \<bar>x\<bar>" for x
    using fl_relative [of f x, OF F that] by (simp add: v_def u_def)
  have Fb: "\<bar>f x\<bar> \<le> 2 * b + 1" if "\<bar>x\<bar> \<le> b" for x b using F that by (rule fl_bound)
  have i0: "0 \<le> i" using i(1) by auto
  define a where "a = 2 * pi * i / n"
  have pi_bounds: "2 \<le> pi" "pi < 4" using pi_ge_two pi_less_4 by simp_all
  have "\<bar>pi\<bar> \<le> 4" using pi_bounds by simp
  then have "\<bar>P\<bar> \<le> 2 * 4 + 1" unfolding P_def by (rule Fb)
  then have "\<bar>2 * P\<bar> \<le> 18" by simp
  then have "\<bar>Q\<bar> \<le> 2 * 18 + 1" unfolding Q_def by (rule Fb)
  then have Qb: "\<bar>Q\<bar> \<le> 37" by simp
  have "\<bar>Q * i\<bar> \<le> 37 * 2 ^ 32"
  proof -
    have "\<bar>Q * i\<bar> = \<bar>Q\<bar> * i" using i0 by (simp add: abs_mult)
    also have "\<dots> \<le> 37 * 2 ^ 32" using Qb i0 i(2) n(2) by (intro mult_mono) simp_all
    finally show ?thesis .
  qed
  then have "\<bar>R\<bar> \<le> 2 * (37 * 2 ^ 32) + 1" unfolding R_def by (rule Fb)
  then have Rb: "\<bar>R\<bar> \<le> 2 ^ 39" by simp
  have Mn: "\<bar>M - n\<bar> \<le> v * n" using Fv [of n] n(1) by (simp add: M_def)
  have "v * n \<le> 1 / 2 * n" using n(1) by (intro mult_right_mono) (simp_all add: v_def u_def)
  then have Mlow: "1 / 2 \<le> M" using Mn n(1) by linarith
  have "\<bar>n\<bar> \<le> 2 ^ 32" using n by simp
  then have "\<bar>M\<bar> \<le> 2 * 2 ^ 32 + 1" unfolding M_def by (rule Fb)
  then have Mb: "\<bar>M\<bar> \<le> 2 ^ 34" by simp
  have RMb: "\<bar>R / M\<bar> \<le> 2 ^ 40"
  proof -
    have "\<bar>R / M\<bar> = \<bar>R\<bar> / M" using Mlow by simp
    also have "\<dots> \<le> \<bar>R\<bar> / (1 / 2)" using Mlow by (intro divide_left_mono) simp_all
    also have "\<dots> \<le> 2 ^ 40" using Rb by simp
    finally show ?thesis .
  qed
  then have "\<bar>T\<bar> \<le> 2 * 2 ^ 40 + 1" unfolding T_def by (rule Fb)
  then have Tb: "\<bar>T\<bar> \<le> 2 ^ 42" by simp
  have "(1::real) / 2 ^ 52 \<le> 1" by simp
  then have "\<bar>1 - c T\<bar> \<le> 3" using C [of T] abs_cos_le_one [of T] by linarith
  then have "\<bar>S\<bar> \<le> 2 * 3 + 1" unfolding S_def by (rule Fb)
  then have "\<bar>1 / 2 * S\<bar> \<le> 7 / 2" by simp
  then have "\<bar>W\<bar> \<le> 2 * (7 / 2) + 1" unfolding W_def by (rule Fb)
  then have Wb: "\<bar>W\<bar> \<le> 8" by simp
  have Pb: "\<bar>P\<bar> \<le> 9" using \<open>\<bar>P\<bar> \<le> 2 * 4 + 1\<close> by simp
  have Sb: "\<bar>S\<bar> \<le> 7" using \<open>\<bar>S\<bar> \<le> 2 * 3 + 1\<close> by simp
  show "\<bar>P\<bar> \<le> 2 ^ 50" using Pb by simp
  show "\<bar>Q\<bar> \<le> 2 ^ 50" using Qb by simp
  show "\<bar>R\<bar> \<le> 2 ^ 50" using Rb by simp
  show "\<bar>M\<bar> \<le> 2 ^ 50" using Mb by simp
  show "M \<noteq> 0" using Mlow by simp
  show "\<bar>T\<bar> \<le> 2 ^ 50" using Tb by simp
  show "\<bar>S\<bar> \<le> 2 ^ 50" using Sb by simp
  show "\<bar>W\<bar> \<le> 2 ^ 50" using Wb by simp
  have Ta: "\<bar>T - a\<bar> \<le> 401 / 10 * u"
  proof (cases "i = 0")
    case True
    have "\<bar>R\<bar> \<le> eta" using Fa [of 0] by (simp add: R_def True)
    then have "\<bar>R / M\<bar> \<le> 2 * eta"
    proof -
      assume r: "\<bar>R\<bar> \<le> eta"
      have "\<bar>R / M\<bar> = \<bar>R\<bar> / M" using Mlow by simp
      also have "\<dots> \<le> \<bar>R\<bar> / (1 / 2)" using Mlow by (intro divide_left_mono) simp_all
      finally show ?thesis using r by simp
    qed
    moreover have "u * \<bar>R / M\<bar> \<le> 1 * \<bar>R / M\<bar>" using u by (intro mult_right_mono) simp_all
    ultimately have "\<bar>T\<bar> \<le> 5 * eta" using Fa [of "R / M"] unfolding T_def by linarith
    then show ?thesis using eta u by (simp add: a_def True)
  next
    case False
    then have i1: "1 \<le> i" using i(1) by simp
    have "1 / 2 ^ 40 \<le> \<bar>pi\<bar>" using pi_bounds by simp
    then have "\<bar>P - pi\<bar> \<le> v * \<bar>pi\<bar>" unfolding P_def by (rule Fv)
    then have P2: "\<bar>2 * P - 2 * pi\<bar> \<le> v * \<bar>2 * pi\<bar>" by simp
    have "v * \<bar>2 * pi\<bar> \<le> v * 8" using pi_bounds v by (intro mult_left_mono) simp_all
    also have "\<dots> \<le> 1" by (simp add: v_def u_def)
    finally have "\<bar>2 * P - 2 * pi\<bar> \<le> 1" using P2 by linarith
    then have "1 \<le> 2 * P" using pi_bounds by linarith
    then have "1 / 2 ^ 40 \<le> \<bar>2 * P\<bar>" by simp
    then have "\<bar>Q - 2 * P\<bar> \<le> v * \<bar>2 * P\<bar>" unfolding Q_def by (rule Fv)
    with P2 have Q: "\<bar>Q - 2 * pi\<bar> \<le> (2003 / 1000 * u) * \<bar>2 * pi\<bar>"
      using v by (rule rounding_error) (simp add: v_def u_def)
    have "(2003 / 1000 * u) * \<bar>2 * pi\<bar> \<le> 1"
    proof -
      have "(2003 / 1000 * u) * \<bar>2 * pi\<bar> \<le> (2003 / 1000 * u) * 8"
        using pi_bounds u by (intro mult_left_mono) simp_all
      then show ?thesis by (simp add: u_def)
    qed
    then have Q1: "1 \<le> Q" using Q pi_bounds by linarith
    have "Q * i - 2 * pi * i = (Q - 2 * pi) * i" by (simp add: algebra_simps)
    then have "\<bar>Q * i - 2 * pi * i\<bar> = \<bar>Q - 2 * pi\<bar> * i"
      using i0 by (simp only: abs_mult abs_of_nonneg)
    also have "\<dots> \<le> (2003 / 1000 * u * \<bar>2 * pi\<bar>) * i"
      using Q i0 by (intro mult_right_mono) simp_all
    also have "\<dots> = (2003 / 1000 * u) * \<bar>2 * pi * i\<bar>"
      using i0 by (simp add: abs_mult)
    finally have Qi: "\<bar>Q * i - 2 * pi * i\<bar> \<le> (2003 / 1000 * u) * \<bar>2 * pi * i\<bar>" .
    have "1 * 1 \<le> Q * i" using Q1 i1 by (intro mult_mono) simp_all
    then have "1 / 2 ^ 40 \<le> \<bar>Q * i\<bar>" by simp
    then have "\<bar>R - Q * i\<bar> \<le> v * \<bar>Q * i\<bar>" unfolding R_def by (rule Fv)
    with Qi have R: "\<bar>R - 2 * pi * i\<bar> \<le> (3005 / 1000 * u) * \<bar>2 * pi * i\<bar>"
      using v by (rule rounding_error) (simp add: v_def u_def)
    have quot: "\<bar>R / M - 2 * pi * i / n\<bar> \<le> (4007 / 1000 * u) * \<bar>2 * pi * i / n\<bar>"
      using R Mn by (rule quotient_error) (use n in \<open>simp_all add: v_def u_def\<close>)
    have alow: "1 / 2 ^ 32 \<le> a"
    proof -
      have "1 / n \<le> i / n" using i1 n(1) by (simp add: divide_right_mono)
      moreover have "1 / 2 ^ 32 \<le> 1 / n" using n by (simp add: field_simps)
      ultimately have "1 / 2 ^ 32 \<le> i / n" by linarith
      also have "i / n = 1 * (i / n)" by simp
      also have "\<dots> \<le> (2 * pi) * (i / n)"
        using pi_bounds i0 n(1) by (intro mult_right_mono) simp_all
      also have "\<dots> = a" by (simp add: a_def)
      finally show ?thesis .
    qed
    have apos: "0 \<le> a" using alow by (rule order_trans [rotated]) simp
    have qa: "\<bar>R / M - a\<bar> \<le> (4007 / 1000 * u) * a"
      using quot apos unfolding a_def [symmetric] by simp
    have "(4007 / 1000 * u) * a \<le> (1 / 2) * a"
      using apos by (intro mult_right_mono) (simp_all add: u_def)
    then have "1 / 2 * a \<le> R / M" using qa by linarith
    moreover have "(1::real) / 2 ^ 40 \<le> 1 / 2 * (1 / 2 ^ 32)" by simp
    ultimately have "1 / 2 ^ 40 \<le> \<bar>R / M\<bar>" using alow by linarith
    then have "\<bar>T - R / M\<bar> \<le> v * \<bar>R / M\<bar>" unfolding T_def by (rule Fv)
    with quot have T: "\<bar>T - a\<bar> \<le> (5009 / 1000 * u) * \<bar>a\<bar>"
      unfolding a_def using v by (rule rounding_error) (simp add: v_def u_def)
    have "a \<le> 2 * pi"
    proof -
      have "i / n \<le> 1" using i(2) n(1) by simp
      then have "2 * pi * (i / n) \<le> 2 * pi * 1" by (intro mult_left_mono) simp_all
      then show ?thesis by (simp add: a_def)
    qed
    then have a8: "a \<le> 8" using pi_bounds by linarith
    have "\<bar>T - a\<bar> \<le> (5009 / 1000 * u) * a" using T apos by simp
    also have "\<dots> \<le> (5009 / 1000 * u) * 8"
      using a8 u by (intro mult_left_mono) simp_all
    also have "\<dots> \<le> 401 / 10 * u" using u by simp
    finally show ?thesis .
  qed
  define Cv where "Cv = c T"
  have "\<bar>Cv - cos a\<bar> \<le> \<bar>Cv - cos T\<bar> + \<bar>cos T - cos a\<bar>" by linarith
  also have "\<dots> \<le> 2 * u + \<bar>T - a\<bar>"
    using C [of T] cos_lipschitz [of T a] by (simp add: Cv_def u_def)
  finally have Cv: "\<bar>Cv - cos a\<bar> \<le> 421 / 10 * u" using Ta by linarith
  define h where "h = 1 - cos a"
  have cosa: "\<bar>h\<bar> \<le> 2" using cos_ge_minus_one [of a] cos_le_one [of a] by (simp add: h_def)
  have "\<bar>1 - Cv\<bar> \<le> 201 / 100" using Cv cosa u unfolding h_def by linarith
  then have "u * \<bar>1 - Cv\<bar> \<le> u * (201 / 100)" using u by (intro mult_left_mono) simp_all
  then have "\<bar>S - (1 - Cv)\<bar> \<le> 202 / 100 * u"
    using Fa [of "1 - Cv"] eta by (simp add: S_def Cv_def)
  then have S: "\<bar>S - h\<bar> \<le> 4412 / 100 * u" using Cv unfolding h_def by linarith
  have "\<bar>1 / 2 * S\<bar> \<le> 101 / 100" using S cosa u by linarith
  then have "u * \<bar>1 / 2 * S\<bar> \<le> u * (101 / 100)" using u by (intro mult_left_mono) simp_all
  then have "\<bar>W - 1 / 2 * S\<bar> \<le> 102 / 100 * u"
    using Fa [of "1 / 2 * S"] eta by (simp add: W_def)
  then have "\<bar>W - 1 / 2 * h\<bar> \<le> 24 * u" using S u by linarith
  then show "\<bar>W - 1 / 2 * (1 - cos (2 * pi * i / n))\<bar> \<le> 24 / 2 ^ 53"
    by (simp add: a_def u_def h_def)
qed

text \<open>
  Rounding to nearest has the accuracy of double precision, and so has the skewed engine.
\<close>

lemma round_half_even_error: "\<bar>real_of_int (round_half_even y) - y\<bar> \<le> 1 / 2"
proof -
  have "real_of_int \<lfloor>y\<rfloor> \<le> y" "y < real_of_int \<lfloor>y\<rfloor> + 1" by linarith+
  then show ?thesis by (auto simp: round_half_even_def Let_def)
qed

lemma binary64_error: "\<bar>binary64 x - x\<bar> \<le> \<bar>x\<bar> / 2 ^ 53 + 1 / 2 ^ 1075"
proof (cases "x = 0")
  case True
  then show ?thesis by (simp add: binary64_def)
next
  case False
  define e where "e = max \<lfloor>log 2 \<bar>x\<bar>\<rfloor> (- 1022)"
  define ulp :: real where "ulp = 2 powr (of_int e - 52)"
  have pos: "0 < ulp" by (simp add: ulp_def)
  have val: "binary64 x = of_int (round_half_even (x / ulp)) * ulp"
    using False by (simp add: binary64_def Let_def ulp_def e_def)
  have "of_int (round_half_even (x / ulp)) * ulp - x = (of_int (round_half_even (x / ulp)) - x / ulp) * ulp"
    using pos by (simp add: field_simps)
  then have "\<bar>binary64 x - x\<bar> = \<bar>of_int (round_half_even (x / ulp)) - x / ulp\<bar> * ulp"
    using pos by (simp only: val abs_mult abs_of_pos)
  also have "\<dots> \<le> 1 / 2 * ulp"
    using round_half_even_error [of "x / ulp"] pos by (intro mult_right_mono) simp_all
  also have "\<dots> = 2 powr (of_int e) / 2 ^ 53"
    by (simp add: ulp_def powr_diff)
  finally have half: "\<bar>binary64 x - x\<bar> \<le> 2 powr (of_int e) / 2 ^ 53" .
  show ?thesis
  proof (cases "- 1022 \<le> \<lfloor>log 2 \<bar>x\<bar>\<rfloor>")
    case True
    then have "of_int e \<le> log 2 \<bar>x\<bar>" by (simp add: e_def max_def)
    then have "2 powr (of_int e) \<le> 2 powr (log 2 \<bar>x\<bar>)" by (intro powr_mono) simp_all
    also have "\<dots> = \<bar>x\<bar>" using False by simp
    finally have "2 powr (of_int e) / 2 ^ 53 \<le> \<bar>x\<bar> / 2 ^ 53" by (simp add: divide_right_mono)
    moreover have "(0::real) \<le> 1 / 2 ^ 1075" by simp
    ultimately show ?thesis using half by linarith
  next
    case False
    then have "e = - 1022" by (simp add: e_def max_def)
    then have "2 powr (real_of_int e) = 2 powr (- 1022)" by simp
    also have "\<dots> = 1 / 2 powr 1022" by (rule powr_minus_divide)
    also have "(2::real) powr 1022 = 2 ^ 1022" by (rule powr_numeral) simp
    finally have "2 powr (real_of_int e) / 2 ^ 53 = 1 / 2 ^ 1075" by simp
    moreover have "0 \<le> \<bar>x\<bar> / 2 ^ 53" by simp
    ultimately show ?thesis using half by linarith
  qed
qed

lemma nearest_engine_precision: "double_precision nearest_engine"
proof -
  have "\<bar>binary64 (cos x) - cos x\<bar> \<le> 1 / 2 ^ 52" for x
  proof -
    have "\<bar>binary64 (cos x) - cos x\<bar> \<le> \<bar>cos x\<bar> / 2 ^ 53 + 1 / 2 ^ 1075" by (rule binary64_error)
    also have "\<dots> \<le> 1 / 2 ^ 53 + 1 / 2 ^ 1075"
      using abs_cos_le_one [of x] by (simp add: divide_right_mono)
    also have "\<dots> \<le> 1 / 2 ^ 52" by simp
    finally show ?thesis .
  qed
  moreover have "\<bar>binary64 x - x\<bar> \<le> \<bar>x\<bar> / 2 ^ 53 + 1 / 2 ^ 1075" for x by (rule binary64_error)
  ultimately show ?thesis unfolding double_precision_def nearest_engine_def by simp
qed

lemma skewed_engine_precision: "double_precision skewed_engine"
  by (simp add: double_precision_def skewed_engine_def)

lemma rounded_finite:
  assumes "\<bar>fl E a\<bar> \<le> 2 ^ 50"
  shows "rounded E (Num a) = Num (fl E a)"
proof -
  have "(2::real) ^ 50 < 2 ^ 1024" by simp
  then have "\<not> 2 ^ 1024 \<le> \<bar>fl E a\<bar>" using assms by linarith
  then show ?thesis by (simp only: rounded.simps if_False)
qed

subsection \<open>The Hann window\<close>

lemma toLowerCase_hann [simp]: "toLowerCase ''hann'' = ''hann''"
  by (simp add: toLowerCase_def)

lemma hann_coefficient:
  assumes E: "double_precision E" and N: "2 \<le> N" "N < 2 ^ 32" and i: "i < N"
  shows "\<exists>w. window_coefficient E ''hann'' N i = Num w
             \<and> \<bar>w - 1 / 2 * (1 - cos (2 * pi * real i / (real N - 1)))\<bar> \<le> 24 / 2 ^ 53"
proof -
  have F: "\<And>x. \<bar>fl E x - x\<bar> \<le> \<bar>x\<bar> / 2 ^ 53 + 1 / 2 ^ 1075"
    and C: "\<And>x. \<bar>fcos E x - cos x\<bar> \<le> 1 / 2 ^ 52"
    using E by (simp_all add: double_precision_def)
  have n: "1 \<le> real N - 1" "real N - 1 \<le> 2 ^ 32" using N by simp_all
  have ri: "real i = 0 \<or> 1 \<le> real i" "real i \<le> real N - 1" using i by auto
  note facts = hann_value_error [OF F C n ri]
  have p: "Math_PI E = Num (fl E pi)"
    unfolding Math_PI_def using facts(1) by (rule rounded_finite)
  have q: "js_mul E (Num 2) (Num (fl E pi)) = Num (fl E (2 * fl E pi))"
    unfolding js_mul_def times_jsnum.simps using facts(2) by (rule rounded_finite)
  have r: "js_mul E (Num (fl E (2 * fl E pi))) (Num (real i)) = Num (fl E (fl E (2 * fl E pi) * real i))"
    unfolding js_mul_def times_jsnum.simps using facts(3) by (rule rounded_finite)
  have m: "js_sub E (Num (real N)) (Num 1) = Num (fl E (real N - 1))"
    unfolding js_sub_def Num_minus using facts(4) by (rule rounded_finite)
  have "Num (fl E (fl E (2 * fl E pi) * real i)) / Num (fl E (real N - 1)) = Num (fl E (fl E (2 * fl E pi) * real i) / fl E (real N - 1))"
    using facts(5) by simp
  then have t: "js_div E (Num (fl E (fl E (2 * fl E pi) * real i))) (Num (fl E (real N - 1))) = Num (fl E (fl E (fl E (2 * fl E pi) * real i) / fl E (real N - 1)))"
    unfolding js_div_def using facts(6) by (simp only: rounded_finite)
  have s: "js_sub E (Num 1) (Num (fcos E (fl E (fl E (fl E (2 * fl E pi) * real i) / fl E (real N - 1))))) = Num (fl E (1 - fcos E (fl E (fl E (fl E (2 * fl E pi) * real i) / fl E (real N - 1)))))"
    unfolding js_sub_def Num_minus using facts(7) by (rule rounded_finite)
  have w: "js_mul E (Num (1 / 2)) (Num (fl E (1 - fcos E (fl E (fl E (fl E (2 * fl E pi) * real i) / fl E (real N - 1)))))) = Num (fl E (1 / 2 * fl E (1 - fcos E (fl E (fl E (fl E (2 * fl E pi) * real i) / fl E (real N - 1))))))"
    unfolding js_mul_def times_jsnum.simps using facts(8) by (rule rounded_finite)
  have "window_coefficient E ''hann'' N i = Num (fl E (1 / 2 * fl E (1 - fcos E (fl E (fl E (fl E (2 * fl E pi) * real i) / fl E (real N - 1))))))"
    by (simp add: window_coefficient_def Let_def p q r m t s w)
  then show ?thesis using facts(9) by blast
qed

text \<open>
  C9, as the code has it. On an engine of double precision, for every window size \<open>N\<close>
  other than 1 that an array can have, the Hann window is produced, its coefficients are
  finite numbers, and it is symmetric up to rounding: \<open>w[i]\<close> and \<open>w[N - 1 - i]\<close> differ by
  at most \<open>2^-47\<close>, for every index \<open>i < N\<close>.
\<close>

theorem hann_symmetric:
  assumes "double_precision E" "N \<noteq> 1" "N < 2 ^ 32" "i < N"
  shows "\<exists>w. createWindowFunction E N ''hann'' = Inr w
             \<and> close_to (1 / 2 ^ 47) (w ! i) (w ! (N - 1 - i))"
proof -
  from assms have N: "2 \<le> N" by simp
  define h where "h = 1 / 2 * (1 - cos (2 * pi * real i / (real N - 1)))"
  define w where "w = map (window_coefficient E ''hann'' N) [0..<N]"
  have "valid_array_length (Num (real N))" using assms(3) by simp
  then have made: "createWindowFunction E N ''hann'' = Inr w"
    by (simp add: createWindowFunction_def w_def)
  have "2 * pi * real (N - 1 - i) / (real N - 1) = 2 * pi - 2 * pi * real i / (real N - 1)"
    using assms(4) N by (simp add: of_nat_diff field_simps)
  then have same: "cos (2 * pi * real (N - 1 - i) / (real N - 1)) = cos (2 * pi * real i / (real N - 1))"
    by (simp only: cos_2pi_minus)
  from hann_coefficient [OF assms(1) N assms(3,4)] obtain a where
    a: "window_coefficient E ''hann'' N i = Num a" "\<bar>a - h\<bar> \<le> 24 / 2 ^ 53"
    unfolding h_def by blast
  have j: "N - 1 - i < N" using N by simp
  from hann_coefficient [OF assms(1) N assms(3) j] obtain b where
    b: "window_coefficient E ''hann'' N (N - 1 - i) = Num b" "\<bar>b - h\<bar> \<le> 24 / 2 ^ 53"
    unfolding h_def same by blast
  have "(24::real) / 2 ^ 53 + 24 / 2 ^ 53 \<le> 1 / 2 ^ 47" by simp
  then have "\<bar>a - b\<bar> \<le> 1 / 2 ^ 47"
    using a(2) b(2) by (simp only: abs_le_iff) linarith
  moreover have "w ! i = Num a" using assms(4) a(1) by (simp add: w_def)
  moreover have "w ! (N - 1 - i) = Num b" using j b(1) by (simp add: w_def del: One_nat_def)
  ultimately have "close_to (1 / 2 ^ 47) (w ! i) (w ! (N - 1 - i))" by simp
  with made show ?thesis by blast
qed

text \<open>Size 4, the two inner coefficients, with rounding to nearest.\<close>

theorem hann_symmetric_witness:
  "double_precision nearest_engine \<and> (4::nat) \<noteq> 1 \<and> (4::nat) < 2 ^ 32 \<and> (1::nat) < 4 \<and>
   (\<exists>w. createWindowFunction nearest_engine 4 ''hann'' = Inr w
        \<and> close_to (1 / 2 ^ 47) (w ! 1) (w ! 2))"
  using hann_symmetric [of nearest_engine 4 1] nearest_engine_precision by simp

lemma hann_size_one:
  assumes E: "double_precision E" and zero: "fl E 0 = 0"
  shows "createWindowFunction E 1 ''hann'' = Inr [NaN]"
proof -
  have F: "\<And>x. \<bar>fl E x - x\<bar> \<le> \<bar>x\<bar> / 2 ^ 53 + 1 / 2 ^ 1075"
    using E by (simp add: double_precision_def)
  have "\<bar>pi\<bar> \<le> 4" using pi_less_4 pi_gt_zero by simp
  with F have "\<bar>fl E pi\<bar> \<le> 2 * 4 + 1" by (rule fl_bound)
  then have P: "\<bar>fl E pi\<bar> \<le> 9" by simp
  then have p: "Math_PI E = Num (fl E pi)"
    unfolding Math_PI_def by (intro rounded_finite) simp
  from P have "\<bar>2 * fl E pi\<bar> \<le> 18" by simp
  with F have "\<bar>fl E (2 * fl E pi)\<bar> \<le> 2 * 18 + 1" by (rule fl_bound)
  then have q: "js_mul E (Num 2) (Num (fl E pi)) = Num (fl E (2 * fl E pi))"
    unfolding js_mul_def times_jsnum.simps by (intro rounded_finite) simp
  have "\<bar>fl E 0\<bar> \<le> 2 ^ 50" by (simp add: zero)
  then have "rounded E (Num 0) = Num (fl E 0)" by (rule rounded_finite)
  then have z: "rounded E (Num 0) = Num 0" by (simp only: zero)
  have r: "js_mul E (Num (fl E (2 * fl E pi))) (Num 0) = Num 0" by (simp add: js_mul_def z del: rounded.simps)
  have m: "js_sub E (Num 1) (Num 1) = Num 0" by (simp add: js_sub_def z del: rounded.simps)
  have t: "js_div E (Num 0) (Num 0) = NaN" by (simp add: js_div_def)
  have s: "js_sub E (Num 1) NaN = NaN" by (simp add: js_sub_def)
  have w: "js_mul E (Num (1 / 2)) NaN = NaN" by (simp add: js_mul_def)
  show ?thesis
    by (simp add: createWindowFunction_def window_coefficient_def p q r m t s w)
qed

lemma binary64_zero: "binary64 0 = 0"
  by (simp add: binary64_def)

text \<open>
  Size 1: the argument of the cosine is \<open>0 / 0\<close>, so the only coefficient is \<open>NaN\<close>, which is
  not equal to itself. This holds on every engine of double precision that rounds 0 to 0;
  here with rounding to nearest.
\<close>

theorem hann_size_one_counterexample:
  "createWindowFunction nearest_engine 1 ''hann'' = Inr [NaN] \<and>
   \<not> js_eq ([NaN] ! 0) ([NaN] ! (1 - 1 - 0))"
  using hann_size_one [OF nearest_engine_precision]
  by (simp add: nearest_engine_def binary64_zero js_eq_def)

text \<open>
  From size 2 on the accuracy of the engine gives closeness and no more: on the skewed
  engine the two inner coefficients of size 4 differ in the last place.
\<close>

lemma skewed_rounded:
  assumes "\<bar>a\<bar> \<le> 100"
  shows "rounded skewed_engine (Num a) = Num a"
proof -
  have "\<bar>fl skewed_engine a\<bar> \<le> 2 ^ 50" using assms by (simp add: skewed_engine_def)
  then have "rounded skewed_engine (Num a) = Num (fl skewed_engine a)" by (rule rounded_finite)
  then show ?thesis by (simp add: skewed_engine_def)
qed

lemma skewed_hann_coefficient:
  assumes "i = 1 \<or> i = 2"
  shows "window_coefficient skewed_engine ''hann'' 4 i =
     Num (1 / 2 * (1 - fcos skewed_engine (2 * pi * real i / 3)))"
proof -
  have pi_bounds: "0 < pi" "pi < 4" using pi_gt_zero pi_less_4 by simp_all
  have i: "real i = 1 \<or> real i = 2" using assms by auto
  have p: "Math_PI skewed_engine = Num pi"
    unfolding Math_PI_def using pi_bounds by (intro skewed_rounded) simp
  have q: "js_mul skewed_engine (Num 2) (Num pi) = Num (2 * pi)"
    unfolding js_mul_def times_jsnum.simps using pi_bounds by (intro skewed_rounded) simp
  have r: "js_mul skewed_engine (Num (2 * pi)) (Num (real i)) = Num (2 * pi * real i)"
    unfolding js_mul_def times_jsnum.simps using pi_bounds i by (intro skewed_rounded) auto
  have m: "js_sub skewed_engine (Num 4) (Num 1) = Num 3"
    unfolding js_sub_def Num_minus using skewed_rounded [of "4 - 1"] by simp
  have "\<bar>2 * pi * real i / 3\<bar> \<le> 100" using pi_bounds i by auto
  then have t: "js_div skewed_engine (Num (2 * pi * real i)) (Num 3) = Num (2 * pi * real i / 3)"
    unfolding js_div_def by (simp add: skewed_rounded del: rounded.simps)
  define c where "c = fcos skewed_engine (2 * pi * real i / 3)"
  have "\<bar>c\<bar> \<le> 2"
  proof -
    have "\<bar>c - cos (2 * pi * real i / 3)\<bar> \<le> 1 / 2 ^ 52"
      using skewed_engine_precision unfolding c_def double_precision_def by blast
    moreover have "(1::real) / 2 ^ 52 \<le> 1" by simp
    ultimately show ?thesis using abs_cos_le_one [of "2 * pi * real i / 3"] by linarith
  qed
  then have "\<bar>1 - c\<bar> \<le> 100" by linarith
  then have s: "js_sub skewed_engine (Num 1) (Num c) = Num (1 - c)"
    unfolding js_sub_def Num_minus by (rule skewed_rounded)
  have "\<bar>1 / 2 * (1 - c)\<bar> \<le> 100" using \<open>\<bar>1 - c\<bar> \<le> 100\<close> by simp
  then have w: "js_mul skewed_engine (Num (1 / 2)) (Num (1 - c)) = Num (1 / 2 * (1 - c))"
    unfolding js_mul_def times_jsnum.simps by (rule skewed_rounded)
  show ?thesis
    unfolding c_def [symmetric]
    by (simp add: window_coefficient_def Let_def p q r m t [unfolded c_def [symmetric]] s w c_def [symmetric])
qed

lemma hann_equality_not_guaranteed:
  "double_precision skewed_engine \<and>
   createWindowFunction skewed_engine 4 ''hann''
     = Inr [window_coefficient skewed_engine ''hann'' 4 0, Num (3 / 4 - 1 / 2 ^ 54), Num (3 / 4),
            window_coefficient skewed_engine ''hann'' 4 3]"
proof -
  have upt: "[0..<4] = [0, 1, 2, 3::nat]" by (simp add: upt_rec)
  have "2 * pi / 3 < pi" by simp
  then have c1: "fcos skewed_engine (2 * pi * real 1 / 3) = - 1 / 2 + 1 / 2 ^ 53"
    by (simp add: skewed_engine_def cos_120)
  have "\<not> 4 * pi / 3 < pi" by simp
  moreover have "cos (4 * pi / 3) = - 1 / 2"
  proof -
    have "4 * pi / 3 = 2 * pi - 2 * pi / 3" by simp
    then show ?thesis by (simp only: cos_2pi_minus cos_120)
  qed
  ultimately have c2: "fcos skewed_engine (2 * pi * real 2 / 3) = - 1 / 2"
    by (simp add: skewed_engine_def)
  have "window_coefficient skewed_engine ''hann'' 4 1 = Num (3 / 4 - 1 / 2 ^ 54)"
    using skewed_hann_coefficient [of 1] c1 by simp
  moreover have "window_coefficient skewed_engine ''hann'' 4 2 = Num (3 / 4)"
    using skewed_hann_coefficient [of 2] c2 by simp
  ultimately show ?thesis
    using skewed_engine_precision by (simp add: createWindowFunction_def upt)
qed

section \<open>The analysis cache\<close>

text \<open>
  C10. With a \<open>null\<close> or \<open>undefined\<close> buffer \<open>analyzeForTab\<close> returns \<open>null\<close> for every
  tab and leaves the whole state as it was: no cached result changes and no analyzer runs.
\<close>

theorem analyzeForTab_null_buffer:
  "analyzeForTab tabId None st = Some (None, st)"
  by (simp add: analyzeForTab_def)

text \<open>
  A cached entry is returned without running an analyzer, whatever the buffer: a second
  request for a tab returns the record of the first and computes nothing.
\<close>

lemma analyzeForTab_cached:
  assumes "analysisData st tabId = Some cached"
  shows "analyzeForTab tabId (Some b) st = Some (Some cached, st\<lparr>audioBuffer := Some b\<rparr>)"
  using assms by (simp add: analyzeForTab_def)

lemma analyzeForTab_computed:
  assumes "analysisData st tabId = None" "loadAnalysisModule tabId b = Some result"
  shows "analyzeForTab tabId (Some b) st =
    Some (Some result, st\<lparr>audioBuffer := Some b, analysisData := (analysisData st)(tabId \<mapsto> result),
                           analyzerRuns := Suc (analyzerRuns st)\<rparr>)"
  using assms by (simp add: analyzeForTab_def)

lemma analyzeForTab_second_request:
  assumes "analyzeForTab tabId (Some b) st = Some (Some result, st1)"
  shows "analyzeForTab tabId (Some b') st1 = Some (Some result, st1\<lparr>audioBuffer := Some b'\<rparr>)"
  using assms
  by (auto simp: analyzeForTab_def Let_def split: option.splits)

lemma analyzeBasic_first_buffer:
  "analyzeBasic first_buffer =
     Some \<lparr>amplitude = [], res_sampleRate = 44100, res_duration = 1 / 44100,
           res_windowSize = 4410, res_hopSize = 1102, maxAmplitude = NegInfinity\<rparr>"
  by (simp add: analyzeBasic_def basic_amplitudes_def basic_windowSize_def basic_hopSize_def
      first_buffer_def frame_loop.simps normalizeAmplitudes_def smoothArray_def)

lemma analyzeBasic_second_buffer:
  "analyzeBasic second_buffer =
     Some \<lparr>amplitude = [], res_sampleRate = 48000, res_duration = 2 / 48000,
           res_windowSize = 4800, res_hopSize = 1200, maxAmplitude = NegInfinity\<rparr>"
  by (simp add: analyzeBasic_def basic_amplitudes_def basic_windowSize_def basic_hopSize_def
      second_buffer_def frame_loop.simps normalizeAmplitudes_def smoothArray_def)

lemma clearAnalysisData_empties: "analysisData (clearAnalysisData st) tabId = None"
  by (simp add: clearAnalysisData_def)

text \<open>
  C2 at a buffer swap. After the first file is uploaded on the \<open>basic\<close> tab, a request for
  the second file on that tab returns the record computed from the first file (sample rate
  44100, not 48000), and the analyzer has run once in all: \<open>handleFileUpload\<close> stores the new
  buffer but does not call \<open>clearAnalysisData\<close>, and the cache has no buffer in its key.
\<close>

theorem buffer_swap_returns_stale_result:
  "Option.bind (handleFileUpload ''basic'' (Some first_buffer) initial_state)
     (\<lambda>st. map_option (\<lambda>(r, st'). (r, analyzerRuns st'))
             (analyzeForTab ''basic'' (Some second_buffer) st))
   = Some (map_option Basic (analyzeBasic first_buffer), 1)
   \<and> map_option res_sampleRate (analyzeBasic first_buffer) = Some 44100
   \<and> map_option res_sampleRate (analyzeBasic second_buffer) = Some 48000"
  by (simp add: handleFileUpload_def analyzeForTab_def loadAnalysisModule_def initial_state_def
      analyzeBasic_first_buffer analyzeBasic_second_buffer)

end
